theory Spec2Isabelle
  imports Main "HOL-Library.AList"
begin

section \<open>Accessible canvas descriptions (src/accessibility/describe.js)\<close>

subsection \<open>Errors and JavaScript values\<close>

text \<open>
  Every way a call can leave by an exception. \<open>ReservedValueError\<close> is the
  \<^verbatim>\<open>Error\<close> thrown by \<^verbatim>\<open>_descriptionText\<close> and \<^verbatim>\<open>_elementName\<close>;
  \<open>TypeError\<close> is a property access on \<^verbatim>\<open>null\<close> or \<^verbatim>\<open>undefined\<close>;
  \<open>SyntaxError\<close> is \<^verbatim>\<open>querySelector\<close> refusing a selector;
  \<open>NoModificationAllowedError\<close> is \<^verbatim>\<open>insertAdjacentHTML\<close> beside a node whose parent
  is not an element. \<open>OutsideModel\<close> marks inputs this embedding does not cover
  (a selector using CSS syntax beyond identifiers and spaces, a dangling node reference).
\<close>

datatype error =
  ReservedValueError | TypeError | SyntaxError | NoModificationAllowedError | OutsideModel

text \<open>An argument as the caller passes it: a string, or any value that is not a string.\<close>

datatype jsval = JStr string | JNotString

text \<open>
  The \<^verbatim>\<open>display\<close> argument. The code only asks whether it is identical to the
  constant \<^verbatim>\<open>this.LABEL\<close>.
\<close>

datatype display = LABEL | FALLBACK | Omitted | OtherDisplay

subsection \<open>Text helpers\<close>

definition endsWith :: "string \<Rightarrow> char \<Rightarrow> bool" where
  "endsWith s c = (s \<noteq> [] \<and> last s = c)"

text \<open>
  \<^verbatim>\<open>name.replace(/.$/, r)\<close>: the dot matches one character that is not a line
  terminator, the dollar only the end of the input, so the only possible match is the
  last character.
\<close>

definition replace_last :: "string \<Rightarrow> string \<Rightarrow> string" where
  "replace_last s r =
     (if s = [] \<or> last s = CHR 0x0A \<or> last s = CHR 0x0D then s else butlast s @ r)"

definition reserved :: "string \<Rightarrow> bool" where
  "reserved s = (s = ''label'' \<or> s = ''fallback'')"

definition descriptionText :: "string \<Rightarrow> error + string" where
  "descriptionText text =
     (if text = ''label'' \<or> text = ''fallback'' then Inl ReservedValueError
      else if \<not> endsWith text CHR ''.'' \<and> \<not> endsWith text CHR '';'' \<and>
              \<not> endsWith text CHR '','' \<and> \<not> endsWith text CHR ''?'' \<and>
              \<not> endsWith text CHR ''!''
           then Inr (text @ ''.'')
           else Inr text)"

definition elementName :: "string \<Rightarrow> error + string" where
  "elementName name =
     (if name = ''label'' \<or> name = ''fallback'' then Inl ReservedValueError
      else if endsWith name CHR ''.'' \<or> endsWith name CHR '';'' \<or> endsWith name CHR '',''
           then Inr (replace_last name '':'')
           else if \<not> endsWith name CHR '':'' then Inr (name @ '':'')
           else Inr name)"

text \<open>\<^verbatim>\<open>name.replace(/[^a-zA-Z0-9 ]/g, '')\<close>\<close>

definition key_char :: "char \<Rightarrow> bool" where
  "key_char c =
     (c \<in> set ''abcdefghijklmnopqrstuvwxyzABCDEFGHIJKLMNOPQRSTUVWXYZ0123456789 '')"

definition sanitizeKey :: "string \<Rightarrow> string" where
  "sanitizeKey name = filter key_char name"

subsection \<open>The document\<close>

text \<open>
  A DOM node is an element with its identity (\<open>nid\<close>, standing for the JavaScript
  object reference), tag, attributes and children, or a run of caller-supplied markup.
  \<open>Markup s\<close> stands for whatever the browser parses from the string \<open>s\<close>; it is
  taken to hold no element that a selector of this module matches. The document is a tree
  whose root has the tag \<open>#document\<close>; subtrees removed from it stay reachable through
  the references the program holds and are kept in a list of detached trees.

  \<open>html\<close> is the markup the module writes through \<^verbatim>\<open>innerHTML\<close> and
  \<^verbatim>\<open>insertAdjacentHTML\<close>, as the tree the browser parses from the template string;
  \<open>render\<close> gives the string back.
\<close>

datatype node =
  Elem (nid: nat) (tag: string) (attrs: "(string \<times> string) list") (kids: "node list")
| Markup string

datatype html = Tag string "(string \<times> string) list" "html list" | Raw string

subsection \<open>Selectors\<close>

text \<open>
  Every selector of the module is \<^verbatim>\<open>'#'\<close> followed by the canvas id, a fixed suffix
  and possibly the sanitised element name. Read as CSS, such a string is a sequence of
  compound selectors separated by spaces (descendant combinators): a token starting with
  \<^verbatim>\<open>#\<close> is an ID selector and must continue as an identifier, any other token is a
  type selector and must be an identifier. A token that is made of name characters but is
  no identifier (it starts with a digit, say) makes \<^verbatim>\<open>querySelector\<close> throw a
  \<open>SyntaxError\<close>. Characters outside letters, digits, underscore, hyphen and space
  are other CSS syntax and are not covered: \<open>OutsideModel\<close>.

  For matching, an element or ancestor is summarised by its tag and its \<^verbatim>\<open>id\<close>
  attribute. Tags are the lower-case local names of HTML elements, against which a type
  selector is compared case-insensitively.
\<close>

type_synonym summary = "string \<times> string option"

definition summary :: "string \<Rightarrow> (string \<times> string) list \<Rightarrow> summary" where
  "summary t a = (t, map_of a ''id'')"

datatype compound = CId string | CType string

definition name_start :: "char \<Rightarrow> bool" where
  "name_start c = (c \<in> set ''abcdefghijklmnopqrstuvwxyzABCDEFGHIJKLMNOPQRSTUVWXYZ_'')"

definition name_char :: "char \<Rightarrow> bool" where
  "name_char c = (name_start c \<or> c \<in> set ''0123456789-'')"

fun is_ident :: "string \<Rightarrow> bool" where
  "is_ident [] = False"
| "is_ident (c # cs) =
     (if c = CHR ''-'' then
        (case cs of [] \<Rightarrow> False
         | d # ds \<Rightarrow> (d = CHR ''-'' \<or> name_start d) \<and> list_all name_char ds)
      else name_start c \<and> list_all name_char cs)"

fun tokens :: "string \<Rightarrow> string \<Rightarrow> string list" where
  "tokens w [] = (if w = [] then [] else [w])"
| "tokens w (c # cs) =
     (if c = CHR '' '' then (if w = [] then tokens [] cs else w # tokens [] cs)
      else tokens (w @ [c]) cs)"

definition parse_compound :: "string \<Rightarrow> error + compound" where
  "parse_compound t =
     (case t of
        [] \<Rightarrow> Inl SyntaxError
      | c # r \<Rightarrow>
          if c = CHR ''#'' then
            (if \<not> list_all name_char r then Inl OutsideModel
             else if is_ident r then Inr (CId r) else Inl SyntaxError)
          else
            (if \<not> list_all name_char t then Inl OutsideModel
             else if is_ident t then Inr (CType t) else Inl SyntaxError))"

fun collect :: "(error + 'a) list \<Rightarrow> error + 'a list" where
  "collect [] = Inr []"
| "collect (x # xs) =
     (case x of
        Inl e \<Rightarrow> (if e = OutsideModel \<or> collect xs \<noteq> Inl OutsideModel then Inl e
                  else Inl OutsideModel)
      | Inr a \<Rightarrow> (case collect xs of Inl e \<Rightarrow> Inl e | Inr as \<Rightarrow> Inr (a # as)))"

definition parse_selector :: "string \<Rightarrow> error + compound list" where
  "parse_selector s =
     (case tokens [] s of
        [] \<Rightarrow> Inl SyntaxError
      | ts \<Rightarrow> collect (map parse_compound ts))"

definition lower :: "char \<Rightarrow> char" where
  "lower c =
     (case map_of (zip ''ABCDEFGHIJKLMNOPQRSTUVWXYZ'' ''abcdefghijklmnopqrstuvwxyz'') c of
        Some d \<Rightarrow> d | None \<Rightarrow> c)"

fun matches_compound :: "compound \<Rightarrow> summary \<Rightarrow> bool" where
  "matches_compound (CId x) (t, i) = (i = Some x)"
| "matches_compound (CType n) (t, i) = (map lower n = t)"

fun matches_chain :: "compound list \<Rightarrow> summary \<Rightarrow> summary list \<Rightarrow> bool"
  and above :: "compound list \<Rightarrow> summary list \<Rightarrow> bool" where
  "matches_chain [] e anc = True"
| "matches_chain [c] e anc = matches_compound c e"
| "matches_chain (c # d # cs) e anc = (matches_compound c e \<and> above (d # cs) anc)"
| "above cs [] = False"
| "above cs (a # as) = (matches_chain cs a as \<or> above cs as)"

text \<open>
  \<^verbatim>\<open>root.querySelector\<close>: the first element in tree order among the descendants that
  matches the selector. The selector is matched against the whole tree, so the ancestors
  of a candidate include the root and the root's own ancestors.
\<close>

fun qs :: "compound list \<Rightarrow> summary list \<Rightarrow> node list \<Rightarrow> nat option" where
  "qs cs anc [] = None"
| "qs cs anc (Markup s # ns) = qs cs anc ns"
| "qs cs anc (Elem i t a ks # ns) =
     (if matches_chain cs (summary t a) anc then Some i
      else (case qs cs (summary t a # anc) ks of
              Some r \<Rightarrow> Some r
            | None \<Rightarrow> qs cs anc ns))"

fun locate :: "nat \<Rightarrow> summary list \<Rightarrow> node list \<Rightarrow> (node \<times> summary list) option" where
  "locate r anc [] = None"
| "locate r anc (Markup s # ns) = locate r anc ns"
| "locate r anc (Elem i t a ks # ns) =
     (if i = r then Some (Elem i t a ks, anc)
      else (case locate r (summary t a # anc) ks of
              Some x \<Rightarrow> Some x
            | None \<Rightarrow> locate r anc ns))"

text \<open>
  \<^verbatim>\<open>document.getElementById(x).parentNode\<close>: the parent of the first element of the
  document whose id is \<open>x\<close>.
\<close>

fun parent_by_id :: "string \<Rightarrow> nat \<Rightarrow> node list \<Rightarrow> nat option" where
  "parent_by_id x p [] = None"
| "parent_by_id x p (Markup s # ns) = parent_by_id x p ns"
| "parent_by_id x p (Elem i t a ks # ns) =
     (if map_of a ''id'' = Some x then Some p
      else (case parent_by_id x i ks of
              Some r \<Rightarrow> Some r
            | None \<Rightarrow> parent_by_id x p ns))"

subsection \<open>Mutations\<close>

text \<open>
  On the forest: \<open>upd_kids\<close> rewrites the child list of one element,
  \<open>ins_adjacent\<close> puts new siblings just before or just after one element, and
  \<open>instantiate\<close> turns parsed markup into fresh elements, numbered in tree order from
  the next unused identity. \<open>outerHTML\<close> serialises a node, as the \<^verbatim>\<open>innerHTML\<close>
  getter does for each child.
\<close>

fun upd_kids :: "nat \<Rightarrow> (node list \<Rightarrow> node list) \<Rightarrow> node list \<Rightarrow> node list" where
  "upd_kids r f [] = []"
| "upd_kids r f (Markup s # ns) = Markup s # upd_kids r f ns"
| "upd_kids r f (Elem i t a ks # ns) =
     (if i = r then Elem i t a (f ks) # ns
      else Elem i t a (upd_kids r f ks) # upd_kids r f ns)"

datatype position = Beforebegin | Afterend

fun ins_adjacent :: "position \<Rightarrow> nat \<Rightarrow> node list \<Rightarrow> node list \<Rightarrow> node list" where
  "ins_adjacent pos r new [] = []"
| "ins_adjacent pos r new (Markup s # ns) = Markup s # ins_adjacent pos r new ns"
| "ins_adjacent pos r new (Elem i t a ks # ns) =
     (if i = r then
        (case pos of Beforebegin \<Rightarrow> new @ Elem i t a ks # ns
         | Afterend \<Rightarrow> Elem i t a ks # new @ ns)
      else Elem i t a (ins_adjacent pos r new ks) # ins_adjacent pos r new ns)"

fun instantiate :: "nat \<Rightarrow> html list \<Rightarrow> node list \<times> nat" where
  "instantiate n [] = ([], n)"
| "instantiate n (Raw s # hs) =
     (case instantiate n hs of (ns, m) \<Rightarrow> (Markup s # ns, m))"
| "instantiate n (Tag t a cs # hs) =
     (case instantiate (Suc n) cs of (ks, m) \<Rightarrow>
        (case instantiate m hs of (ns, m') \<Rightarrow> (Elem n t a ks # ns, m')))"

definition attr_text :: "(string \<times> string) list \<Rightarrow> string" where
  "attr_text a = concat (map (\<lambda>(k, v). '' '' @ k @ ''=\"'' @ v @ ''\"'') a)"

fun outerHTML :: "node \<Rightarrow> string" where
  "outerHTML (Markup s) = s"
| "outerHTML (Elem i t a ks) =
     ''<'' @ t @ attr_text a @ ''>'' @ concat (map outerHTML ks) @ ''</'' @ t @ ''>''"

fun render :: "html \<Rightarrow> string" where
  "render (Raw s) = s"
| "render (Tag t a cs) =
     ''<'' @ t @ attr_text a @ ''>'' @ concat (map render cs) @ ''</'' @ t @ ''>''"


subsection \<open>The state of a sketch\<close>

text \<open>
  \<^verbatim>\<open>this.descriptions\<close> holds the cached node references. The two element maps are
  plain objects: association lists from the sanitised name to the cached value, which
  is a node or \<^verbatim>\<open>null\<close>. The state also holds the document, the detached trees,
  the next unused node identity, \<^verbatim>\<open>this.canvas.id\<close> and \<^verbatim>\<open>this.dummyDOM\<close>.
\<close>

record descriptions =
  fallback :: "nat option"
  label :: "nat option"
  fallbackElements :: "(string \<times> nat option) list option"
  labelElements :: "(string \<times> nat option) list option"

record state =
  document :: node
  detached :: "node list"
  next_nid :: nat
  canvas_id :: string
  dummyDOM :: "nat option"
  descriptions :: "descriptions option"

definition forest :: "state \<Rightarrow> node list" where
  "forest st = document st # detached st"

definition set_forest :: "node list \<Rightarrow> state \<Rightarrow> state" where
  "set_forest f st =
     (case f of [] \<Rightarrow> st | d # ds \<Rightarrow> st\<lparr>document := d, detached := ds\<rparr>)"

text \<open>
  A piece of code is a function from the state to an outcome and the state it leaves:
  \<open>Inl e\<close> when it throws \<open>e\<close>, with every mutation made before the throw kept.
\<close>

type_synonym 'a action = "state \<Rightarrow> (error + 'a) \<times> state"

definition return :: "'a \<Rightarrow> 'a action" where
  "return x = (\<lambda>st. (Inr x, st))"

definition throw :: "error \<Rightarrow> 'a action" where
  "throw e = (\<lambda>st. (Inl e, st))"

definition bind :: "'a action \<Rightarrow> ('a \<Rightarrow> 'b action) \<Rightarrow> 'b action" where
  "bind m f = (\<lambda>st. case m st of (Inl e, st') \<Rightarrow> (Inl e, st') | (Inr x, st') \<Rightarrow> f x st')"

definition seq :: "unit action \<Rightarrow> 'b action \<Rightarrow> 'b action" where
  "seq m k = bind m (\<lambda>_. k)"

definition non_null :: "'a option \<Rightarrow> 'a action" where
  "non_null x = (case x of None \<Rightarrow> throw TypeError | Some v \<Rightarrow> return v)"

definition querySelector :: "nat \<Rightarrow> string \<Rightarrow> nat option action" where
  "querySelector root sel = (\<lambda>st.
     case parse_selector sel of
       Inl e \<Rightarrow> (Inl e, st)
     | Inr cs \<Rightarrow>
         (case locate root [] (forest st) of
            None \<Rightarrow> (Inl OutsideModel, st)
          | Some (n, anc) \<Rightarrow>
              (Inr (qs (rev cs) (summary (tag n) (attrs n) # anc) (kids n)), st)))"

text \<open>
  The DOM calls of the module. \<^verbatim>\<open>innerHTML = ...\<close> replaces the children and detaches
  the old ones; \<^verbatim>\<open>insertAdjacentHTML\<close> with \<^verbatim>\<open>'beforebegin'\<close> or
  \<^verbatim>\<open>'afterend'\<close> needs a parent that is an element; \<^verbatim>\<open>createElement\<close> makes an
  element without attributes, \<^verbatim>\<open>tableRow.id = x\<close> sets its id and \<^verbatim>\<open>appendChild\<close>
  adds it as the last child.

  A string that the caller supplied is written as one \<open>Markup\<close> leaf and read back
  as it was written. For a string without \<^verbatim>\<open><\<close> the leaf is the text node a
  browser creates; a browser would parse tags in the string into elements, and its
  getter escapes \<^verbatim>\<open>&\<close>, \<^verbatim>\<open><\<close> and \<^verbatim>\<open>>\<close>, which this embedding does not
  follow. The templates of the module are written as the elements they spell.
\<close>

definition parent_of_id :: "state \<Rightarrow> string \<Rightarrow> nat option" where
  "parent_of_id st x =
     (if x = [] then None
      else (case document st of
              Elem i t a ks \<Rightarrow> parent_by_id x i ks
            | Markup s \<Rightarrow> None))"

definition getElementById_parentNode :: "string \<Rightarrow> nat action" where
  "getElementById_parentNode x = (\<lambda>st.
     case parent_of_id st x of
       None \<Rightarrow> (Inl TypeError, st)
     | Some p \<Rightarrow> (Inr p, st))"

definition get_innerHTML :: "nat \<Rightarrow> string action" where
  "get_innerHTML r = (\<lambda>st.
     case locate r [] (forest st) of
       None \<Rightarrow> (Inl OutsideModel, st)
     | Some (n, anc) \<Rightarrow> (Inr (concat (map outerHTML (kids n))), st))"

definition set_innerHTML :: "nat \<Rightarrow> html list \<Rightarrow> unit action" where
  "set_innerHTML r h = (\<lambda>st.
     case locate r [] (forest st) of
       None \<Rightarrow> (Inl OutsideModel, st)
     | Some (n, anc) \<Rightarrow>
         (case instantiate (next_nid st) h of
            (new, m) \<Rightarrow>
              (Inr (),
               set_forest (upd_kids r (\<lambda>_. new) (forest st) @ kids n) (st\<lparr>next_nid := m\<rparr>))))"

definition insertAdjacentHTML :: "nat \<Rightarrow> position \<Rightarrow> html list \<Rightarrow> unit action" where
  "insertAdjacentHTML r pos h = (\<lambda>st.
     case locate r [] (forest st) of
       None \<Rightarrow> (Inl OutsideModel, st)
     | Some (n, []) \<Rightarrow> (Inl NoModificationAllowedError, st)
     | Some (n, (t, i) # anc) \<Rightarrow>
         if t = ''#document'' then (Inl NoModificationAllowedError, st)
         else (case instantiate (next_nid st) h of
                 (new, m) \<Rightarrow>
                   (Inr (),
                    set_forest (ins_adjacent pos r new (forest st)) (st\<lparr>next_nid := m\<rparr>))))"

definition createElement :: "string \<Rightarrow> node action" where
  "createElement t = (\<lambda>st. (Inr (Elem (next_nid st) t [] []), st\<lparr>next_nid := Suc (next_nid st)\<rparr>))"

definition set_id :: "node \<Rightarrow> string \<Rightarrow> node" where
  "set_id n x = (case n of Elem i t a ks \<Rightarrow> Elem i t (AList.update ''id'' x a) ks | Markup s \<Rightarrow> n)"

definition appendChild :: "nat \<Rightarrow> node \<Rightarrow> unit action" where
  "appendChild r c = (\<lambda>st.
     case locate r [] (forest st) of
       None \<Rightarrow> (Inl OutsideModel, st)
     | Some (n, anc) \<Rightarrow> (Inr (), set_forest (upd_kids r (\<lambda>ks. ks @ [c]) (forest st)) st))"

subsection \<open>The scaffold (helper functions of describe.js)\<close>

text \<open>
  The four functions \<^verbatim>\<open>_describeFallbackHTML\<close>, \<^verbatim>\<open>_describeLabelHTML\<close>,
  \<^verbatim>\<open>_descElementFallbackHTML\<close> and \<^verbatim>\<open>_descElementLabelHTML\<close>, without the leading
  underscore. Each returns the node it looked up last: \<open>None\<close> is \<^verbatim>\<open>undefined\<close>
  for the first two (the function falls off its end) and \<^verbatim>\<open>null\<close> for the last two.
  The root they receive is returned unchanged and is not part of the result here.
\<close>

definition descContainer :: string where "descContainer = ''_Description''"
definition fallbackDescId :: string where "fallbackDescId = ''_fallbackDesc''"
definition fallbackTableId :: string where "fallbackTableId = ''_fallbackTable''"
definition fallbackTableElId :: string where "fallbackTableElId = ''_fte_''"
definition labelContainer :: string where "labelContainer = ''_Label''"
definition labelDescId :: string where "labelDescId = ''_labelDesc''"
definition labelTableId :: string where "labelTableId = ''_labelTable''"
definition labelTableElId :: string where "labelTableElId = ''_lte_''"

definition fallback_container :: "string \<Rightarrow> html list \<Rightarrow> html" where
  "fallback_container cnvId inner =
     Tag ''div'' [(''id'', cnvId @ descContainer), (''role'', ''region''),
                  (''aria-label'', ''Canvas Description'')] inner"

definition label_container :: "string \<Rightarrow> html list \<Rightarrow> html" where
  "label_container cnvId inner =
     Tag ''div'' [(''id'', cnvId @ labelContainer), (''class'', ''p5Label'')] inner"

definition p_element :: "string \<Rightarrow> html" where
  "p_element x = Tag ''p'' [(''id'', x)] []"

definition fallback_table :: "string \<Rightarrow> html" where
  "fallback_table cnvId =
     Tag ''table'' [(''id'', cnvId @ fallbackTableId)]
       [Tag ''caption'' [] [Raw ''Canvas elements and their descriptions'']]"

definition label_table :: "string \<Rightarrow> html" where
  "label_table cnvId = Tag ''table'' [(''id'', cnvId @ labelTableId)] []"

definition describeFallbackHTML :: "nat \<Rightarrow> string \<Rightarrow> nat option action" where
  "describeFallbackHTML dummy cnvId =
     bind (querySelector dummy (''#'' @ cnvId @ descContainer)) (\<lambda>container.
     seq (if container = None then
            bind (querySelector dummy (''#'' @ cnvId @ ''accessibleOutput'')) (\<lambda>out.
            if out = None then
              bind (querySelector dummy (''#'' @ cnvId)) (\<lambda>cnv.
              bind (non_null cnv) (\<lambda>c.
              set_innerHTML c [fallback_container cnvId [p_element (cnvId @ fallbackDescId)]]))
            else
              bind (querySelector dummy (''#'' @ cnvId @ ''accessibleOutput'')) (\<lambda>out'.
              bind (non_null out') (\<lambda>ou.
              insertAdjacentHTML ou Beforebegin
                [fallback_container cnvId [p_element (cnvId @ fallbackDescId)]])))
          else
            bind (querySelector dummy (''#'' @ cnvId @ fallbackTableId)) (\<lambda>tbl.
            bind (non_null tbl) (\<lambda>t.
            insertAdjacentHTML t Beforebegin [p_element (cnvId @ fallbackDescId)])))
     (bind (querySelector dummy (''#'' @ cnvId @ fallbackDescId)) (\<lambda>found.
      if found \<noteq> None then querySelector dummy (''#'' @ cnvId @ fallbackDescId)
      else return None)))"

definition describeLabelHTML :: "nat \<Rightarrow> string \<Rightarrow> nat option action" where
  "describeLabelHTML dummy cnvId =
     bind (querySelector dummy (''#'' @ cnvId @ labelContainer)) (\<lambda>container.
     seq (if container = None then
            bind (querySelector dummy (''#'' @ cnvId @ ''accessibleOutputLabel'')) (\<lambda>out.
            if out = None then
              bind (querySelector dummy (''#'' @ cnvId)) (\<lambda>cnv.
              bind (non_null cnv) (\<lambda>c.
              insertAdjacentHTML c Afterend
                [label_container cnvId [p_element (cnvId @ labelDescId)]]))
            else
              bind (querySelector dummy (''#'' @ cnvId @ ''accessibleOutputLabel'')) (\<lambda>out'.
              bind (non_null out') (\<lambda>ou.
              insertAdjacentHTML ou Beforebegin
                [label_container cnvId [p_element (cnvId @ labelDescId)]])))
          else
            bind (querySelector dummy (''#'' @ cnvId @ labelTableId)) (\<lambda>tbl.
            if tbl \<noteq> None then
              bind (querySelector dummy (''#'' @ cnvId @ labelTableId)) (\<lambda>tbl'.
              bind (non_null tbl') (\<lambda>t.
              insertAdjacentHTML t Beforebegin [p_element (cnvId @ labelDescId)]))
            else return ()))
     (bind (querySelector dummy (''#'' @ cnvId @ labelDescId)) (\<lambda>found.
      if found \<noteq> None then querySelector dummy (''#'' @ cnvId @ labelDescId)
      else return None)))"

definition descElementFallbackHTML :: "nat \<Rightarrow> string \<Rightarrow> string \<Rightarrow> nat option action" where
  "descElementFallbackHTML dummy cnvId name =
     bind (querySelector dummy (''#'' @ cnvId @ descContainer)) (\<lambda>container.
     seq (if container = None then
            bind (querySelector dummy (''#'' @ cnvId @ ''accessibleOutput'')) (\<lambda>out.
            if out = None then
              bind (querySelector dummy (''#'' @ cnvId)) (\<lambda>cnv.
              bind (non_null cnv) (\<lambda>c.
              set_innerHTML c [fallback_container cnvId [fallback_table cnvId]]))
            else
              bind (querySelector dummy (''#'' @ cnvId @ ''accessibleOutput'')) (\<lambda>out'.
              bind (non_null out') (\<lambda>ou.
              insertAdjacentHTML ou Beforebegin [fallback_container cnvId [fallback_table cnvId]])))
          else
            bind (querySelector dummy (''#'' @ cnvId @ fallbackTableId)) (\<lambda>tbl.
            if tbl = None then
              bind (querySelector dummy (''#'' @ cnvId @ fallbackDescId)) (\<lambda>desc.
              bind (non_null desc) (\<lambda>d.
              insertAdjacentHTML d Afterend [fallback_table cnvId]))
            else return ()))
     (bind (createElement ''tr'') (\<lambda>tableRow.
      bind (querySelector dummy (''#'' @ cnvId @ fallbackTableId)) (\<lambda>tbl.
      bind (non_null tbl) (\<lambda>t.
      seq (appendChild t (set_id tableRow (cnvId @ fallbackTableElId @ name)))
      (querySelector dummy (''#'' @ cnvId @ fallbackTableElId @ name)))))))"

definition descElementLabelHTML :: "nat \<Rightarrow> string \<Rightarrow> string \<Rightarrow> nat option action" where
  "descElementLabelHTML dummy cnvId name =
     bind (querySelector dummy (''#'' @ cnvId @ labelContainer)) (\<lambda>container.
     seq (if container = None then
            bind (querySelector dummy (''#'' @ cnvId @ ''accessibleOutputLabel'')) (\<lambda>out.
            if out = None then
              bind (querySelector dummy (''#'' @ cnvId)) (\<lambda>cnv.
              bind (non_null cnv) (\<lambda>c.
              insertAdjacentHTML c Afterend [label_container cnvId [label_table cnvId]]))
            else
              bind (querySelector dummy (''#'' @ cnvId @ ''accessibleOutputLabel'')) (\<lambda>out'.
              bind (non_null out') (\<lambda>ou.
              insertAdjacentHTML ou Beforebegin [label_container cnvId [label_table cnvId]])))
          else
            bind (querySelector dummy (''#'' @ cnvId @ labelTableId)) (\<lambda>tbl.
            if tbl = None then
              bind (querySelector dummy (''#'' @ cnvId @ labelDescId)) (\<lambda>desc.
              bind (non_null desc) (\<lambda>d.
              insertAdjacentHTML d Afterend [label_table cnvId]))
            else return ()))
     (bind (createElement ''tr'') (\<lambda>tableRow.
      bind (querySelector dummy (''#'' @ cnvId @ labelTableId)) (\<lambda>tbl.
      bind (non_null tbl) (\<lambda>t.
      seq (appendChild t (set_id tableRow (cnvId @ labelTableElId @ name)))
      (querySelector dummy (''#'' @ cnvId @ labelTableElId @ name)))))))"


subsection \<open>describe and describeElement\<close>

text \<open>
  Reading \<^verbatim>\<open>obj[name]\<close> on a plain object: an own entry if there is one, otherwise
  what \<^verbatim>\<open>Object.prototype\<close> provides under that name, a function or object that is
  truthy and is not a node. Writing \<^verbatim>\<open>innerHTML\<close> on such a value touches neither
  the document nor the cache.
\<close>

datatype jsprop = Undefined | Null | NodeRef nat | Inherited

definition object_prototype_keys :: "string list" where
  "object_prototype_keys =
     [''constructor'', ''__defineGetter__'', ''__defineSetter__'', ''hasOwnProperty'',
      ''__lookupGetter__'', ''__lookupSetter__'', ''isPrototypeOf'',
      ''propertyIsEnumerable'', ''toString'', ''valueOf'', ''__proto__'',
      ''toLocaleString'']"

definition get_prop :: "(string \<times> nat option) list \<Rightarrow> string \<Rightarrow> jsprop" where
  "get_prop m k =
     (case map_of m k of
        Some (Some n) \<Rightarrow> NodeRef n
      | Some None \<Rightarrow> Null
      | None \<Rightarrow> if k \<in> set object_prototype_keys then Inherited else Undefined)"

definition empty_descriptions :: descriptions where
  "empty_descriptions =
     \<lparr>fallback = None, label = None, fallbackElements = None, labelElements = None\<rparr>"

definition lift :: "error + 'a \<Rightarrow> 'a action" where
  "lift r = (\<lambda>st. (r, st))"

definition get_descriptions :: "descriptions action" where
  "get_descriptions = (\<lambda>st. non_null (descriptions st) st)"

definition modify_descriptions :: "(descriptions \<Rightarrow> descriptions) \<Rightarrow> unit action" where
  "modify_descriptions f = (\<lambda>st.
     case descriptions st of
       None \<Rightarrow> (Inl TypeError, st)
     | Some d \<Rightarrow> (Inr (), st\<lparr>descriptions := Some (f d)\<rparr>))"

definition get_dummyDOM :: "nat action" where
  "get_dummyDOM = (\<lambda>st. non_null (dummyDOM st) st)"

definition set_dummyDOM :: "nat \<Rightarrow> unit action" where
  "set_dummyDOM r = (\<lambda>st. (Inr (), st\<lparr>dummyDOM := Some r\<rparr>))"

definition ensure_dummyDOM :: "unit action" where
  "ensure_dummyDOM = (\<lambda>st.
     if dummyDOM st = None
     then bind (getElementById_parentNode (canvas_id st)) set_dummyDOM st
     else (Inr (), st))"

definition refresh :: "nat \<Rightarrow> html list \<Rightarrow> unit action" where
  "refresh n h =
     bind (get_innerHTML n) (\<lambda>cur.
     if cur \<noteq> concat (map render h) then set_innerHTML n h else return ())"

definition describe_fallback :: "string \<Rightarrow> string \<Rightarrow> unit action" where
  "describe_fallback cnvId text =
     bind get_descriptions (\<lambda>d.
     case fallback d of
       Some n \<Rightarrow> refresh n [Raw text]
     | None \<Rightarrow>
         bind get_dummyDOM (\<lambda>dummy.
         bind (describeFallbackHTML dummy cnvId) (\<lambda>results.
         bind (non_null results) (\<lambda>n.
         seq (modify_descriptions (\<lambda>d. d\<lparr>fallback := Some n\<rparr>))
         (seq (set_dummyDOM dummy)
         (set_innerHTML n [Raw text]))))))"

definition describe_label :: "string \<Rightarrow> string \<Rightarrow> unit action" where
  "describe_label cnvId text =
     bind get_descriptions (\<lambda>d.
     case label d of
       Some n \<Rightarrow> refresh n [Raw text]
     | None \<Rightarrow>
         bind get_dummyDOM (\<lambda>dummy.
         bind (describeLabelHTML dummy cnvId) (\<lambda>results.
         bind (non_null results) (\<lambda>n.
         seq (modify_descriptions (\<lambda>d. d\<lparr>label := Some n\<rparr>))
         (seq (set_dummyDOM dummy)
         (set_innerHTML n [Raw text]))))))"

text \<open>
  \<^verbatim>\<open>p5._validateParameters\<close> belongs to the host library and only reports; the
  functions start at the \<^verbatim>\<open>typeof\<close> test.
\<close>

definition describe :: "jsval \<Rightarrow> display \<Rightarrow> unit action" where
  "describe text display = (\<lambda>st.
     case text of
       JNotString \<Rightarrow> (Inr (), st)
     | JStr t \<Rightarrow>
         bind (lift (descriptionText t)) (\<lambda>text.
         seq ensure_dummyDOM
         (seq (\<lambda>st. (Inr (), if descriptions st = None
                              then st\<lparr>descriptions := Some empty_descriptions\<rparr> else st))
         (seq (describe_fallback (canvas_id st) text)
         (if display = LABEL then describe_label (canvas_id st) text else return ())))) st)"

definition row_html :: "string \<Rightarrow> string \<Rightarrow> html list" where
  "row_html elName text =
     [Tag ''th'' [(''scope'', ''row'')] [Raw elName], Tag ''td'' [] [Raw text]]"

definition element_fallback :: "string \<Rightarrow> string \<Rightarrow> html list \<Rightarrow> unit action" where
  "element_fallback cnvId name inner =
     bind get_descriptions (\<lambda>d.
     bind (non_null (fallbackElements d)) (\<lambda>m.
     case get_prop m name of
       NodeRef n \<Rightarrow> refresh n inner
     | Inherited \<Rightarrow> return ()
     | _ \<Rightarrow>
         bind get_dummyDOM (\<lambda>dummy.
         bind (descElementFallbackHTML dummy cnvId name) (\<lambda>results.
         seq (modify_descriptions
                (\<lambda>d. d\<lparr>fallbackElements := Some (AList.update name results m)\<rparr>))
         (seq (set_dummyDOM dummy)
         (bind (non_null results) (\<lambda>n. set_innerHTML n inner)))))))"

definition element_label :: "string \<Rightarrow> string \<Rightarrow> html list \<Rightarrow> unit action" where
  "element_label cnvId name inner =
     seq (modify_descriptions
            (\<lambda>d. if labelElements d = None then d\<lparr>labelElements := Some []\<rparr> else d))
     (bind get_descriptions (\<lambda>d.
      bind (non_null (labelElements d)) (\<lambda>m.
      case get_prop m name of
        NodeRef n \<Rightarrow> refresh n inner
      | Inherited \<Rightarrow> return ()
      | _ \<Rightarrow>
          bind get_dummyDOM (\<lambda>dummy.
          bind (descElementLabelHTML dummy cnvId name) (\<lambda>results.
          seq (modify_descriptions
                 (\<lambda>d. d\<lparr>labelElements := Some (AList.update name results m)\<rparr>))
          (seq (set_dummyDOM dummy)
          (bind (non_null results) (\<lambda>n. set_innerHTML n inner))))))))"

definition describeElement :: "jsval \<Rightarrow> jsval \<Rightarrow> display \<Rightarrow> unit action" where
  "describeElement name text display = (\<lambda>st.
     case (text, name) of
       (JStr t, JStr nm) \<Rightarrow>
         bind (lift (descriptionText t)) (\<lambda>text.
         bind (lift (elementName nm)) (\<lambda>elName.
         seq ensure_dummyDOM
         (seq (\<lambda>st. (Inr (),
                 case descriptions st of
                   None \<Rightarrow> st\<lparr>descriptions :=
                              Some (empty_descriptions\<lparr>fallbackElements := Some []\<rparr>)\<rparr>
                 | Some d \<Rightarrow> if fallbackElements d = None
                             then st\<lparr>descriptions := Some (d\<lparr>fallbackElements := Some []\<rparr>)\<rparr>
                             else st))
         (seq (element_fallback (canvas_id st) (sanitizeKey nm) (row_html elName text))
         (if display = LABEL
          then element_label (canvas_id st) (sanitizeKey nm) (row_html elName text)
          else return ()))))) st
     | _ \<Rightarrow> (Inr (), st))"

text \<open>A page that holds one canvas and nothing else, before any call.\<close>

definition page :: "string \<Rightarrow> state" where
  "page cnvId =
     \<lparr>document = Elem 0 ''#document'' []
        [Elem 1 ''html'' [] [Elem 2 ''body'' [] [Elem 3 ''canvas'' [(''id'', cnvId)] []]]],
      detached = [], next_nid = 4, canvas_id = cnvId, dummyDOM = None, descriptions = None\<rparr>"

subsection \<open>Notions used in the statements\<close>

text \<open>The state a call leaves, whether it returns or throws.\<close>

definition run :: "'a action \<Rightarrow> state \<Rightarrow> state" where
  "run a st = snd (a st)"

text \<open>\<^verbatim>\<open>document.getElementById(this.canvas.id)\<close> finds an element.\<close>

definition canvas_located :: "state \<Rightarrow> bool" where
  "canvas_located st = (parent_of_id st (canvas_id st) \<noteq> None)"

text \<open>The page after the host has removed the canvas element, before any call.\<close>

definition removed_page :: "string \<Rightarrow> state" where
  "removed_page cnvId =
     \<lparr>document = Elem 0 ''#document'' [] [Elem 1 ''html'' [] [Elem 2 ''body'' [] []]],
      detached = [], next_nid = 3, canvas_id = cnvId, dummyDOM = None, descriptions = None\<rparr>"

text \<open>
  Tree order. \<open>ids\<close> lists the elements of a forest in tree order, each with its
  identity and its \<^verbatim>\<open>id\<close> attribute; \<open>first_id\<close> is the first element with a given
  id, which is what \<^verbatim>\<open>querySelector\<close> returns for a plain ID selector;
  \<open>precedes_under st r a b\<close> says that among the descendants of \<open>r\<close> the element
  \<open>a\<close> comes before \<open>b\<close> in document order.
\<close>

fun ids :: "node list \<Rightarrow> (nat \<times> string option) list" where
  "ids [] = []"
| "ids (Markup s # ns) = ids ns"
| "ids (Elem i t a ks # ns) = (i, map_of a ''id'') # ids ks @ ids ns"

definition nids :: "node list \<Rightarrow> nat list" where
  "nids ns = map fst (ids ns)"

definition first_id :: "string \<Rightarrow> node list \<Rightarrow> nat option" where
  "first_id x ns = map_option fst (find (\<lambda>e. snd e = Some x) (ids ns))"

definition before_in :: "nat list \<Rightarrow> nat \<Rightarrow> nat \<Rightarrow> bool" where
  "before_in l a b = (b \<in> set l \<and> a \<in> set (takeWhile (\<lambda>x. x \<noteq> b) l))"

definition kids_of :: "state \<Rightarrow> nat \<Rightarrow> node list" where
  "kids_of st r = (case locate r [] (forest st) of None \<Rightarrow> [] | Some (n, anc) \<Rightarrow> kids n)"

definition precedes_under :: "state \<Rightarrow> nat \<Rightarrow> nat \<Rightarrow> nat \<Rightarrow> bool" where
  "precedes_under st r a b = before_in (nids (kids_of st r)) a b"

text \<open>
  Node identities stand for object references: no two elements share one, and every
  identity in use lies below the next fresh one.
\<close>

definition wf_nodes :: "state \<Rightarrow> bool" where
  "wf_nodes st =
     (distinct (nids (forest st)) \<and> list_all (\<lambda>i. i < next_nid st) (nids (forest st)))"


text \<open>A piece of code throws nothing outside the set \<open>E\<close>.\<close>

definition only_throws :: "error set \<Rightarrow> 'a action \<Rightarrow> bool" where
  "only_throws E a = (\<forall>st e. fst (a st) = Inl e \<longrightarrow> e \<in> E)"

subsection \<open>Sequences of calls\<close>

text \<open>
  A sketch calls the two public functions any number of times, in any order and with
  any arguments. \<open>exec\<close> is the state one call leaves, whether it returns or throws;
  \<open>run_calls\<close> is the state after a sequence of calls, the first call of the list
  being made first.
\<close>

datatype call = Describe jsval display | DescribeElement jsval jsval display





subsection \<open>The page as the module builds it\<close>

text \<open>
  Used in the proofs only. On a page that starts with the canvas alone, the calls of
  the module build at most two containers: the fallback container inside the canvas
  element and the label container right after it. A container holds the description
  paragraph, the element table, or the paragraph followed by the table. A \<open>box\<close>
  records a container that exists: its identity and its two slots, each \<open>Absent\<close>
  or \<open>Present\<close> with the identity and the children of the node. \<open>page_doc\<close> is
  the document with given children of the canvas and given siblings after it;
  \<open>fnodes\<close> and \<open>lnodes\<close> are the nodes of the two boxes.
\<close>

datatype slot = Absent | Present nat "node list"

type_synonym box = "(nat \<times> slot \<times> slot) option"












text \<open>
  \<open>module_ids\<close> are the ids the scaffold looks up by a plain ID selector. A forest is
  \<open>inert\<close> when none of its elements carries one of them: rows, cells and text. The
  children of a paragraph or of a table are inert, and a container is never empty.
\<close>

definition module_ids :: "string \<Rightarrow> string list" where
  "module_ids cnv =
     [cnv, cnv @ descContainer, cnv @ fallbackDescId, cnv @ fallbackTableId,
      cnv @ labelContainer, cnv @ labelDescId, cnv @ labelTableId,
      cnv @ ''accessibleOutput'', cnv @ ''accessibleOutputLabel'']"

definition inert :: "string \<Rightarrow> node list \<Rightarrow> bool" where
  "inert cnv ns =
     list_all (\<lambda>e. case snd e of None \<Rightarrow> True | Some x \<Rightarrow> x \<notin> set (module_ids cnv)) (ids ns)"

fun slot_id :: "slot \<Rightarrow> nat option" where
  "slot_id Absent = None"
| "slot_id (Present i ks) = Some i"





fun box_skel :: "box \<Rightarrow> nat list" where
  "box_skel None = []"
| "box_skel (Some (a, ps, ts)) = a # (case slot_id ps of None \<Rightarrow> [] | Some p \<Rightarrow> [p]) @
     (case slot_id ts of None \<Rightarrow> [] | Some t \<Rightarrow> [t])"




text \<open>
  \<open>skel\<close> lists the nodes the shape names: the four nodes down to the canvas, the
  containers, the paragraphs and the tables. \<open>same_env\<close> relates the states before
  and after a DOM call: the cached references are untouched and no identity is reused.
  \<open>upd_box\<close> rewrites the children of a node below a paragraph or a table;
  \<open>anchored y\<close> lists the elements with the id \<open>y\<close> and their descendants.
\<close>

definition skel :: "box \<Rightarrow> box \<Rightarrow> nat list" where
  "skel fb lb = 0 # 1 # 2 # 3 # box_skel fb @ box_skel lb"










definition rows_ok :: "box \<Rightarrow> box \<Rightarrow> state \<Rightarrow> (string \<times> nat option) list \<Rightarrow> bool" where
  "rows_ok fb lb st m \<longleftrightarrow>
     (\<forall>k n. (k, Some n) \<in> set m \<longrightarrow> n \<notin> set (skel fb lb) \<and> n < next_nid st)"



section \<open>Normalisation\<close>

lemma endsWith_snoc: "endsWith (s @ [c]) d = (c = d)"
  by (simp add: endsWith_def)

lemma descriptionText_not_reserved_out:
  "descriptionText t = Inr u \<Longrightarrow> u \<noteq> ''label'' \<and> u \<noteq> ''fallback''"
  by (auto simp: descriptionText_def endsWith_def split: if_splits)

lemma descriptionText_ends:
  "descriptionText t = Inr u \<Longrightarrow>
     endsWith u CHR ''.'' \<or> endsWith u CHR '';'' \<or> endsWith u CHR '','' \<or>
     endsWith u CHR ''?'' \<or> endsWith u CHR ''!''"
  by (auto simp: descriptionText_def endsWith_def split: if_splits)

lemma elementName_ends:
  "elementName n = Inr m \<Longrightarrow> endsWith m CHR '':''"
  by (auto simp: elementName_def endsWith_def replace_last_def split: if_splits)

text \<open>
  C8. For a text that is not reserved, \<open>descriptionText\<close> returns the text unchanged
  when it ends with one of \<open>. ; , ? !\<close> and the text followed by a full stop
  otherwise; \<open>Blue square\<close> becomes \<open>Blue square.\<close> and \<open>Blue square!\<close> stays.
\<close>

theorem descriptionText_spec:
  "\<not> reserved text \<Longrightarrow>
     descriptionText text =
       Inr (if text \<noteq> [] \<and> last text \<in> set ''.;,?!'' then text else text @ ''.'')
     \<and> descriptionText ''Blue square'' = Inr ''Blue square.''
     \<and> descriptionText ''Blue square!'' = Inr ''Blue square!''"
  by (auto simp: descriptionText_def reserved_def endsWith_def)

theorem descriptionText_spec_witness:
  "\<not> reserved ''Red circle;'' \<and> descriptionText ''Red circle;'' = Inr ''Red circle;''
   \<and> \<not> reserved ''Red circle'' \<and> descriptionText ''Red circle'' = Inr ''Red circle.''"
  using descriptionText_spec [of "''Red circle;''"] descriptionText_spec [of "''Red circle''"]
  by (simp add: reserved_def)

text \<open>
  C9. For a name that is not reserved, \<open>elementName\<close> replaces only the last
  character by a colon when the name ends with one of \<open>. ; ,\<close>, and otherwise appends
  a colon unless the name already ends with one; \<open>Circle\<close> and \<open>Circle,\<close> both
  become \<open>Circle:\<close>.
\<close>

theorem elementName_spec:
  "\<not> reserved name \<Longrightarrow>
     elementName name =
       Inr (if name \<noteq> [] \<and> last name \<in> set ''.;,'' then butlast name @ '':''
            else if name \<noteq> [] \<and> last name = CHR '':'' then name
            else name @ '':'')
     \<and> elementName ''Circle'' = Inr ''Circle:''
     \<and> elementName ''Circle,'' = Inr ''Circle:''"
  by (auto simp: elementName_def reserved_def endsWith_def replace_last_def)

theorem elementName_spec_witness:
  "\<not> reserved ''Heart.'' \<and> elementName ''Heart.'' = Inr ''Heart:''
   \<and> \<not> reserved ''Heart:'' \<and> elementName ''Heart:'' = Inr ''Heart:''"
  using elementName_spec [of "''Heart.''"] elementName_spec [of "''Heart:''"]
  by (simp add: reserved_def)

text \<open>
  C10. Both normalisers are idempotent: when \<open>descriptionText\<close> (respectively
  \<open>elementName\<close>) succeeds on a string, it succeeds on its own output and returns
  that output unchanged.
\<close>

theorem normalizers_idempotent:
  "(descriptionText t = Inr u \<longrightarrow> descriptionText u = Inr u) \<and>
   (elementName n = Inr m \<longrightarrow> elementName m = Inr m)"
proof (intro conjI impI)
  assume a: "descriptionText t = Inr u"
  from descriptionText_not_reserved_out [OF a] descriptionText_ends [OF a]
  show "descriptionText u = Inr u"
    by (auto simp: descriptionText_def)
next
  assume a: "elementName n = Inr m"
  from elementName_ends [OF a] have e: "endsWith m CHR '':''" .
  then have "m \<noteq> ''label''" "m \<noteq> ''fallback''"
    by (auto simp: endsWith_def)
  with e show "elementName m = Inr m"
    by (auto simp: elementName_def endsWith_def)
qed

theorem normalizers_idempotent_witness:
  "descriptionText ''Blue square'' = Inr ''Blue square.'' \<and>
   descriptionText ''Blue square.'' = Inr ''Blue square.'' \<and>
   elementName ''Circle,'' = Inr ''Circle:'' \<and>
   elementName ''Circle:'' = Inr ''Circle:''"
proof -
  have a: "descriptionText ''Blue square'' = Inr ''Blue square.''"
    by (simp add: descriptionText_def endsWith_def)
  have b: "elementName ''Circle,'' = Inr ''Circle:''"
    by (simp add: elementName_def endsWith_def replace_last_def)
  from normalizers_idempotent [of "''Blue square''" "''Blue square.''" "''Circle,''" "''Circle:''"] a b
  show ?thesis by simp
qed

section \<open>Which exceptions a call can raise\<close>

lemma ot_return: "only_throws E (return x)"
  by (simp add: only_throws_def return_def)

lemma ot_throw: "e \<in> E \<Longrightarrow> only_throws E (throw e)"
  by (simp add: only_throws_def throw_def)

lemma ot_bind: "only_throws E m \<Longrightarrow> (\<And>x. only_throws E (f x)) \<Longrightarrow> only_throws E (bind m f)"
  unfolding only_throws_def bind_def
  by (auto split: prod.splits sum.splits) (metis fst_conv)+

lemma ot_seq: "only_throws E m \<Longrightarrow> only_throws E k \<Longrightarrow> only_throws E (seq m k)"
  by (simp add: seq_def ot_bind)

lemma ot_if: "only_throws E a \<Longrightarrow> only_throws E b \<Longrightarrow> only_throws E (if c then a else b)"
  by simp

lemma ot_non_null: "TypeError \<in> E \<Longrightarrow> only_throws E (non_null x)"
  by (cases x) (simp_all add: non_null_def ot_return ot_throw)

abbreviation dom_errors :: "error set" where
  "dom_errors \<equiv> {TypeError, SyntaxError, NoModificationAllowedError, OutsideModel}"

lemma parse_compound_errors: "parse_compound t = Inl e \<Longrightarrow> e \<in> {SyntaxError, OutsideModel}"
  by (auto simp: parse_compound_def split: list.splits if_splits)

lemma collect_errors:
  "collect xs = Inl e \<Longrightarrow> \<forall>x\<in>set xs. \<forall>e'. x = Inl e' \<longrightarrow> e' \<in> E \<Longrightarrow> OutsideModel \<in> E \<Longrightarrow> e \<in> E"
  by (induction xs arbitrary: e) (auto split: sum.splits if_splits)

lemma parse_selector_errors: "parse_selector s = Inl e \<Longrightarrow> e \<in> {SyntaxError, OutsideModel}"
proof -
  assume a: "parse_selector s = Inl e"
  show ?thesis
  proof (cases "tokens [] s")
    case Nil
    with a show ?thesis by (simp add: parse_selector_def)
  next
    case (Cons t ts)
    with a have "collect (map parse_compound (t # ts)) = Inl e"
      by (simp add: parse_selector_def)
    then show ?thesis
      by (rule collect_errors) (auto dest: parse_compound_errors)
  qed
qed

lemma ot_querySelector: "only_throws dom_errors (querySelector r s)"
  unfolding only_throws_def querySelector_def
  by (auto split: sum.splits option.splits prod.splits dest: parse_selector_errors)

lemma ot_get_innerHTML: "only_throws dom_errors (get_innerHTML r)"
  unfolding only_throws_def get_innerHTML_def
  by (auto split: option.splits prod.splits)

lemma ot_set_innerHTML: "only_throws dom_errors (set_innerHTML r h)"
  unfolding only_throws_def set_innerHTML_def
  by (auto split: option.splits prod.splits)

lemma ot_insertAdjacentHTML: "only_throws dom_errors (insertAdjacentHTML r p h)"
  unfolding only_throws_def insertAdjacentHTML_def
  by (auto split: option.splits prod.splits list.splits if_splits)

lemma ot_createElement: "only_throws dom_errors (createElement t)"
  unfolding only_throws_def createElement_def by auto

lemma ot_appendChild: "only_throws dom_errors (appendChild r c)"
  unfolding only_throws_def appendChild_def
  by (auto split: option.splits prod.splits)

lemma ot_getElementById: "only_throws dom_errors (getElementById_parentNode x)"
  unfolding only_throws_def getElementById_parentNode_def
  by (auto split: option.splits if_splits)

lemma ot_set_dummyDOM: "only_throws dom_errors (set_dummyDOM r)"
  unfolding only_throws_def set_dummyDOM_def by auto

lemma ot_get_dummyDOM: "only_throws dom_errors get_dummyDOM"
  unfolding only_throws_def get_dummyDOM_def non_null_def throw_def return_def
  by (auto split: option.splits)

lemma ot_get_descriptions: "only_throws dom_errors get_descriptions"
  unfolding only_throws_def get_descriptions_def non_null_def throw_def return_def
  by (auto split: option.splits)

lemma ot_modify_descriptions: "only_throws dom_errors (modify_descriptions f)"
  unfolding only_throws_def modify_descriptions_def
  by (auto split: option.splits)

lemma ot_ensure_dummyDOM: "only_throws dom_errors ensure_dummyDOM"
  using ot_bind [OF ot_getElementById, of set_dummyDOM] ot_set_dummyDOM
  unfolding only_throws_def ensure_dummyDOM_def
  by (auto split: if_splits)

lemmas ot_prims = ot_return ot_throw ot_bind ot_seq ot_if ot_non_null ot_querySelector
  ot_get_innerHTML ot_set_innerHTML ot_insertAdjacentHTML ot_createElement ot_appendChild
  ot_set_dummyDOM ot_get_dummyDOM ot_get_descriptions ot_modify_descriptions

lemma ot_refresh: "only_throws dom_errors (refresh n h)"
  unfolding refresh_def by (intro ot_prims; simp)

lemma ot_describeFallbackHTML: "only_throws dom_errors (describeFallbackHTML d c)"
  unfolding describeFallbackHTML_def by (intro ot_prims; simp)

lemma ot_describeLabelHTML: "only_throws dom_errors (describeLabelHTML d c)"
  unfolding describeLabelHTML_def by (intro ot_prims; simp)

lemma ot_descElementFallbackHTML: "only_throws dom_errors (descElementFallbackHTML d c n)"
  unfolding descElementFallbackHTML_def by (intro ot_prims; simp)

lemma ot_descElementLabelHTML: "only_throws dom_errors (descElementLabelHTML d c n)"
  unfolding descElementLabelHTML_def by (intro ot_prims; simp)

lemma ot_option_case:
  "only_throws E a \<Longrightarrow> (\<And>x. only_throws E (f x)) \<Longrightarrow> only_throws E (case_option a f v)"
  by (cases v) simp_all

lemma ot_describe_fallback: "only_throws dom_errors (describe_fallback c t)"
  unfolding describe_fallback_def
  by (intro ot_prims ot_option_case ot_refresh ot_describeFallbackHTML; simp)

lemma ot_describe_label: "only_throws dom_errors (describe_label c t)"
  unfolding describe_label_def
  by (intro ot_prims ot_option_case ot_refresh ot_describeLabelHTML; simp)

lemma ot_jsprop_case:
  "only_throws E a \<Longrightarrow> only_throws E b \<Longrightarrow> (\<And>x. only_throws E (f x)) \<Longrightarrow> only_throws E c \<Longrightarrow>
   only_throws E (case_jsprop a b f c v)"
  by (cases v) simp_all

lemma ot_element_fallback: "only_throws dom_errors (element_fallback c n h)"
  unfolding element_fallback_def
  by (intro ot_prims ot_jsprop_case ot_refresh ot_descElementFallbackHTML; simp)

lemma ot_element_label: "only_throws dom_errors (element_label c n h)"
  unfolding element_label_def
  by (intro ot_prims ot_jsprop_case ot_refresh ot_descElementLabelHTML; simp)


lemma descriptionText_reserved: "reserved t \<Longrightarrow> descriptionText t = Inl ReservedValueError"
  by (simp add: reserved_def descriptionText_def)

lemma descriptionText_ok: "\<not> reserved t \<Longrightarrow> \<exists>u. descriptionText t = Inr u"
  by (simp add: reserved_def descriptionText_def)

lemma elementName_reserved: "reserved t \<Longrightarrow> elementName t = Inl ReservedValueError"
  by (simp add: reserved_def elementName_def)

lemma elementName_ok: "\<not> reserved t \<Longrightarrow> \<exists>u. elementName t = Inr u"
  by (simp add: reserved_def elementName_def)

lemma bind_lift_Inr: "bind (lift (Inr u)) f st = f u st"
  by (simp add: bind_def lift_def)

lemma bind_lift_Inl: "bind (lift (Inl e)) f st = (Inl e, st)"
  by (simp add: bind_def lift_def)

lemma ot_state_fun: "only_throws E (\<lambda>st. (Inr (), g st))"
  by (simp add: only_throws_def)

lemma ot_not_reserved:
  "only_throws dom_errors a \<Longrightarrow> fst (a st) \<noteq> Inl ReservedValueError"
  by (auto simp: only_throws_def)

lemma describe_errors:
  assumes "\<not> reserved t"
  shows "fst (describe (JStr t) d st) \<noteq> Inl ReservedValueError"
proof -
  from assms obtain u where u: "descriptionText t = Inr u"
    using descriptionText_ok by blast
  let ?body = "seq ensure_dummyDOM
         (seq (\<lambda>st. (Inr (), if descriptions st = None
                              then st\<lparr>descriptions := Some empty_descriptions\<rparr> else st))
         (seq (describe_fallback (canvas_id st) u)
         (if d = LABEL then describe_label (canvas_id st) u else return ())))"
  have "only_throws dom_errors ?body"
    by (intro ot_seq ot_if ot_ensure_dummyDOM ot_state_fun ot_describe_fallback
        ot_describe_label ot_return)
  then have ne: "fst (?body st) \<noteq> Inl ReservedValueError"
    by (rule ot_not_reserved)
  have eq: "describe (JStr t) d st = ?body st"
    by (simp add: describe_def u bind_lift_Inr)
  show ?thesis
    unfolding eq by (rule ne)
qed

lemma describeElement_errors:
  assumes "\<not> reserved t" "\<not> reserved n"
  shows "fst (describeElement (JStr n) (JStr t) d st) \<noteq> Inl ReservedValueError"
proof -
  from assms obtain u where u: "descriptionText t = Inr u"
    using descriptionText_ok by blast
  from assms obtain m where m: "elementName n = Inr m"
    using elementName_ok by blast
  let ?body = "seq ensure_dummyDOM
         (seq (\<lambda>st. (Inr (),
                 case descriptions st of
                   None \<Rightarrow> st\<lparr>descriptions :=
                              Some (empty_descriptions\<lparr>fallbackElements := Some []\<rparr>)\<rparr>
                 | Some d \<Rightarrow> if fallbackElements d = None
                             then st\<lparr>descriptions := Some (d\<lparr>fallbackElements := Some []\<rparr>)\<rparr>
                             else st))
         (seq (element_fallback (canvas_id st) (sanitizeKey n) (row_html m u))
         (if d = LABEL
          then element_label (canvas_id st) (sanitizeKey n) (row_html m u)
          else return ())))"
  have "only_throws dom_errors ?body"
    by (intro ot_seq ot_if ot_ensure_dummyDOM ot_state_fun ot_element_fallback
        ot_element_label ot_return)
  then have ne: "fst (?body st) \<noteq> Inl ReservedValueError"
    by (rule ot_not_reserved)
  have eq: "describeElement (JStr n) (JStr t) d st = ?body st"
    by (simp add: describeElement_def u m bind_lift_Inr)
  show ?thesis
    unfolding eq by (rule ne)
qed

lemma describe_reserved:
  "reserved t \<Longrightarrow> describe (JStr t) d st = (Inl ReservedValueError, st)"
  by (simp add: describe_def descriptionText_reserved bind_lift_Inl)

lemma describeElement_reserved:
  assumes "reserved t \<or> reserved n"
  shows "describeElement (JStr n) (JStr t) d st = (Inl ReservedValueError, st)"
proof (cases "reserved t")
  case True
  then show ?thesis
    by (simp add: describeElement_def descriptionText_reserved bind_lift_Inl)
next
  case False
  then obtain u where u: "descriptionText t = Inr u"
    using descriptionText_ok by blast
  from False assms have "reserved n" by simp
  then show ?thesis
    by (simp add: describeElement_def u elementName_reserved bind_lift_Inl bind_lift_Inr)
qed

lemma describe_not_string: "describe JNotString d st = (Inr (), st)"
  by (simp add: describe_def)

lemma describeElement_not_string:
  "n = JNotString \<or> t = JNotString \<Longrightarrow> describeElement n t d st = (Inr (), st)"
  by (cases n; cases t) (simp_all add: describeElement_def)

text \<open>
  C5, as stated, fails: the name \<open>label\<close> raises nothing when the text is not a
  string, because the \<^verbatim>\<open>typeof\<close> test returns before the names are checked.
\<close>

theorem reserved_name_not_checked:
  "describeElement (JStr ''label'') JNotString FALLBACK (page ''defaultCanvas0'')
     = (Inr (), page ''defaultCanvas0'')"
  by (simp add: describeElement_def)

text \<open>
  C5, amended. \<open>describe\<close> throws the reserved-value error exactly when the text is
  a string equal to \<open>label\<close> or \<open>fallback\<close>, and \<open>describeElement\<close> exactly when
  the name and the text are both strings and one of them is; the comparison is on the raw
  argument and is case-sensitive. When the error is thrown, the state is the one before
  the call: no node was created and no cache entry written.
\<close>

theorem reserved_value_error:
  "(fst (describe tx d st) = Inl ReservedValueError
      \<longleftrightarrow> (\<exists>t. tx = JStr t \<and> reserved t)) \<and>
   (fst (describeElement nm tx d st) = Inl ReservedValueError
      \<longleftrightarrow> (\<exists>n t. nm = JStr n \<and> tx = JStr t \<and> (reserved t \<or> reserved n))) \<and>
   (fst (describe tx d st) = Inl ReservedValueError
      \<longrightarrow> snd (describe tx d st) = st) \<and>
   (fst (describeElement nm tx d st) = Inl ReservedValueError
      \<longrightarrow> snd (describeElement nm tx d st) = st)"
proof -
  have a: "fst (describe tx d st) = Inl ReservedValueError
             \<longleftrightarrow> (\<exists>t. tx = JStr t \<and> reserved t)"
  proof (cases tx)
    case (JStr t)
    show ?thesis
    proof (cases "reserved t")
      case True
      with JStr show ?thesis by (simp add: describe_reserved)
    next
      case False
      with JStr describe_errors [OF False, of d st] show ?thesis by simp
    qed
  next
    case JNotString
    then show ?thesis by (simp add: describe_not_string)
  qed
  have b: "fst (describeElement nm tx d st) = Inl ReservedValueError
             \<longleftrightarrow> (\<exists>n t. nm = JStr n \<and> tx = JStr t \<and> (reserved t \<or> reserved n))"
  proof (cases "nm = JNotString \<or> tx = JNotString")
    case True
    from describeElement_not_string [OF True, of d st] True show ?thesis by auto
  next
    case False
    then obtain n t where nt: "nm = JStr n" "tx = JStr t"
      by (cases nm; cases tx) auto
    show ?thesis
    proof (cases "reserved t \<or> reserved n")
      case True
      with nt describeElement_reserved [OF True, of d st] show ?thesis by simp
    next
      case False
      then have "\<not> reserved t" "\<not> reserved n" by simp_all
      from describeElement_errors [OF this, of d st] nt False show ?thesis by simp
    qed
  qed
  have c: "snd (describe tx d st) = st" if "fst (describe tx d st) = Inl ReservedValueError"
  proof -
    from that a obtain t where "tx = JStr t" "reserved t" by blast
    then show ?thesis by (simp add: describe_reserved)
  qed
  have e: "snd (describeElement nm tx d st) = st"
    if "fst (describeElement nm tx d st) = Inl ReservedValueError"
  proof -
    from that b obtain n t where nt: "nm = JStr n" "tx = JStr t" "reserved t \<or> reserved n"
      by blast
    from describeElement_reserved [OF nt(3), of d st] nt show ?thesis by simp
  qed
  from a b c e show ?thesis by blast
qed

theorem reserved_value_error_witness:
  "fst (describe (JStr ''label'') LABEL (page ''defaultCanvas0'')) = Inl ReservedValueError \<and>
   snd (describe (JStr ''label'') LABEL (page ''defaultCanvas0'')) = page ''defaultCanvas0'' \<and>
   fst (describeElement (JStr ''fallback'') (JStr ''Label'') LABEL (page ''defaultCanvas0''))
     = Inl ReservedValueError \<and>
   snd (describeElement (JStr ''fallback'') (JStr ''Label'') LABEL (page ''defaultCanvas0''))
     = page ''defaultCanvas0'' \<and>
   fst (describe (JStr ''Label'') LABEL (page ''defaultCanvas0'')) \<noteq> Inl ReservedValueError"
  using reserved_value_error [of "JStr ''label''" LABEL "page ''defaultCanvas0''" "JStr ''fallback''"]
    reserved_value_error [of "JStr ''Label''" LABEL "page ''defaultCanvas0''" "JStr ''fallback''"]
  by (simp add: reserved_def)

section \<open>A canvas that cannot be located\<close>

lemma ensure_dummyDOM_fails:
  "dummyDOM st = None \<Longrightarrow> \<not> canvas_located st \<Longrightarrow> ensure_dummyDOM st = (Inl TypeError, st)"
  by (auto simp: ensure_dummyDOM_def canvas_located_def getElementById_parentNode_def bind_def)

lemma seq_ensure_fails:
  "ensure_dummyDOM st = (Inl e, st') \<Longrightarrow> seq ensure_dummyDOM k st = (Inl e, st')"
  by (simp add: seq_def bind_def)

text \<open>
  C1, as stated, fails: on a page whose canvas element is gone, \<open>describe\<close> does not
  complete silently. \<^verbatim>\<open>document.getElementById(cnvId)\<close> is \<^verbatim>\<open>null\<close> and reading
  its \<^verbatim>\<open>parentNode\<close> throws a \<open>TypeError\<close> that reaches the caller.
\<close>

theorem detached_canvas_throws:
  "\<not> canvas_located (removed_page ''defaultCanvas0'') \<and>
   describe (JStr ''Red circle'') FALLBACK (removed_page ''defaultCanvas0'')
     = (Inl TypeError, removed_page ''defaultCanvas0'')"
  by code_simp

text \<open>
  C1, amended. When no root is cached yet and no element with the canvas id can be
  located, a call of \<open>describe\<close> or \<open>describeElement\<close> with string arguments that are
  not reserved throws a \<open>TypeError\<close> to the caller; it caches no node reference and
  leaves the document and the cache as they were.
\<close>

theorem detached_canvas_type_error:
  assumes "dummyDOM st = None" and "\<not> canvas_located st"
    and "\<not> reserved t" and "\<not> reserved n"
  shows "describe (JStr t) d st = (Inl TypeError, st) \<and>
         describeElement (JStr n) (JStr t) d st = (Inl TypeError, st)"
proof -
  from assms obtain u where u: "descriptionText t = Inr u"
    using descriptionText_ok by blast
  from assms obtain m where m: "elementName n = Inr m"
    using elementName_ok by blast
  from assms have e: "ensure_dummyDOM st = (Inl TypeError, st)"
    by (simp add: ensure_dummyDOM_fails)
  have "describe (JStr t) d st = (Inl TypeError, st)"
    by (simp add: describe_def u bind_lift_Inr seq_ensure_fails [OF e])
  moreover have "describeElement (JStr n) (JStr t) d st = (Inl TypeError, st)"
    by (simp add: describeElement_def u m bind_lift_Inr seq_ensure_fails [OF e])
  ultimately show ?thesis by simp
qed

theorem detached_canvas_type_error_witness:
  "dummyDOM (removed_page ''defaultCanvas0'') = None \<and>
   \<not> canvas_located (removed_page ''defaultCanvas0'') \<and>
   \<not> reserved ''Red circle'' \<and> \<not> reserved ''Sun'' \<and>
   describe (JStr ''Red circle'') LABEL (removed_page ''defaultCanvas0'')
     = (Inl TypeError, removed_page ''defaultCanvas0'') \<and>
   describeElement (JStr ''Sun'') (JStr ''Red circle'') LABEL (removed_page ''defaultCanvas0'')
     = (Inl TypeError, removed_page ''defaultCanvas0'')"
proof -
  have a: "dummyDOM (removed_page ''defaultCanvas0'') = None"
    by (simp add: removed_page_def)
  have b: "\<not> canvas_located (removed_page ''defaultCanvas0'')"
    by (simp add: removed_page_def canvas_located_def parent_of_id_def)
  have c: "\<not> reserved ''Red circle''" "\<not> reserved ''Sun''"
    by (simp_all add: reserved_def)
  from detached_canvas_type_error [OF a b c, of LABEL] a b c show ?thesis
    by simp
qed

section \<open>Element names that keep a space\<close>

text \<open>
  C2, evaluated on a fresh page with the name \<open>my circle\<close>. The sanitised key keeps
  the space, so the selector built from it is a descendant selector that matches nothing:
  the row is appended with the id \<open>defaultCanvas0_fte_my circle\<close>, the lookup returns
  \<^verbatim>\<open>null\<close>, \<^verbatim>\<open>null\<close> is cached and writing its content throws a \<open>TypeError\<close>.
\<close>

theorem space_key_lookup_fails:
  "sanitizeKey ''my circle'' = ''my circle'' \<and>
   fst (describeElement (JStr ''my circle'') (JStr ''a'') FALLBACK (page ''defaultCanvas0''))
     = Inl TypeError \<and>
   document (run (describeElement (JStr ''my circle'') (JStr ''a'') FALLBACK)
               (page ''defaultCanvas0'')) =
     Elem 0 ''#document'' [] [Elem 1 ''html'' [] [Elem 2 ''body'' []
       [Elem 3 ''canvas'' [(''id'', ''defaultCanvas0'')]
         [Elem 4 ''div'' [(''id'', ''defaultCanvas0_Description''), (''role'', ''region''),
                          (''aria-label'', ''Canvas Description'')]
           [Elem 5 ''table'' [(''id'', ''defaultCanvas0_fallbackTable'')]
             [Elem 6 ''caption'' [] [Markup ''Canvas elements and their descriptions''],
              Elem 7 ''tr'' [(''id'', ''defaultCanvas0_fte_my circle'')] []]]]]]] \<and>
   descriptions (run (describeElement (JStr ''my circle'') (JStr ''a'') FALLBACK)
                   (page ''defaultCanvas0'')) =
     Some \<lparr>fallback = None, label = None,
           fallbackElements = Some [(''my circle'', None)], labelElements = None\<rparr> \<and>
   fst (querySelector 2 ''#defaultCanvas0_fte_my circle''
          (run (describeElement (JStr ''my circle'') (JStr ''a'') FALLBACK)
             (page ''defaultCanvas0''))) = Inr None"
  by code_simp

text \<open>
  C3, evaluated on a fresh page with the name \<open>circle 2\<close> given twice. The selector
  built from the key is no valid selector, so each call appends a row and then throws a
  \<open>SyntaxError\<close> before anything is cached: the second call finds no cache entry,
  does not refresh the first row and appends a second row with the same id.
\<close>

theorem repeated_call_adds_row:
  "fst (describeElement (JStr ''circle 2'') (JStr ''a'') FALLBACK (page ''defaultCanvas0''))
     = Inl SyntaxError \<and>
   fst (describeElement (JStr ''circle 2'') (JStr ''b'') FALLBACK
          (run (describeElement (JStr ''circle 2'') (JStr ''a'') FALLBACK)
             (page ''defaultCanvas0''))) = Inl SyntaxError \<and>
   document (run (describeElement (JStr ''circle 2'') (JStr ''b'') FALLBACK)
               (run (describeElement (JStr ''circle 2'') (JStr ''a'') FALLBACK)
                  (page ''defaultCanvas0''))) =
     Elem 0 ''#document'' [] [Elem 1 ''html'' [] [Elem 2 ''body'' []
       [Elem 3 ''canvas'' [(''id'', ''defaultCanvas0'')]
         [Elem 4 ''div'' [(''id'', ''defaultCanvas0_Description''), (''role'', ''region''),
                          (''aria-label'', ''Canvas Description'')]
           [Elem 5 ''table'' [(''id'', ''defaultCanvas0_fallbackTable'')]
             [Elem 6 ''caption'' [] [Markup ''Canvas elements and their descriptions''],
              Elem 7 ''tr'' [(''id'', ''defaultCanvas0_fte_circle 2'')] [],
              Elem 8 ''tr'' [(''id'', ''defaultCanvas0_fte_circle 2'')] []]]]]]] \<and>
   descriptions (run (describeElement (JStr ''circle 2'') (JStr ''b'') FALLBACK)
                   (run (describeElement (JStr ''circle 2'') (JStr ''a'') FALLBACK)
                      (page ''defaultCanvas0''))) =
     Some \<lparr>fallback = None, label = None, fallbackElements = Some [], labelElements = None\<rparr>"
  by code_simp

text \<open>
  C6, evaluated on a fresh page with the names \<open>big sun!\<close> and \<open>big sun?\<close>, which
  sanitise to the same key \<open>big sun\<close>. Both calls throw; the second does not overwrite
  the row of the first but appends a second row, and neither row receives any content.
\<close>

theorem aliased_names_add_rows:
  "sanitizeKey ''big sun!'' = sanitizeKey ''big sun?'' \<and>
   fst (describeElement (JStr ''big sun!'') (JStr ''a'') FALLBACK (page ''defaultCanvas0''))
     = Inl TypeError \<and>
   fst (describeElement (JStr ''big sun?'') (JStr ''b'') FALLBACK
          (run (describeElement (JStr ''big sun!'') (JStr ''a'') FALLBACK)
             (page ''defaultCanvas0''))) = Inl TypeError \<and>
   document (run (describeElement (JStr ''big sun?'') (JStr ''b'') FALLBACK)
               (run (describeElement (JStr ''big sun!'') (JStr ''a'') FALLBACK)
                  (page ''defaultCanvas0''))) =
     Elem 0 ''#document'' [] [Elem 1 ''html'' [] [Elem 2 ''body'' []
       [Elem 3 ''canvas'' [(''id'', ''defaultCanvas0'')]
         [Elem 4 ''div'' [(''id'', ''defaultCanvas0_Description''), (''role'', ''region''),
                          (''aria-label'', ''Canvas Description'')]
           [Elem 5 ''table'' [(''id'', ''defaultCanvas0_fallbackTable'')]
             [Elem 6 ''caption'' [] [Markup ''Canvas elements and their descriptions''],
              Elem 7 ''tr'' [(''id'', ''defaultCanvas0_fte_big sun'')] [],
              Elem 8 ''tr'' [(''id'', ''defaultCanvas0_fte_big sun'')] []]]]]]]"
  by code_simp

text \<open>
  C7, evaluated on a fresh page with the name \<open>my circle\<close> and \<open>LABEL\<close>. The call
  throws while it handles the fallback row, so the label branch is never reached: no
  label container, table or row exists afterwards and the cache has no label entry.
\<close>

theorem label_call_without_label_node:
  "describeElement (JStr ''my circle'') (JStr ''a'') LABEL (page ''defaultCanvas0'') =
     (Inl TypeError,
      \<lparr>document =
         Elem 0 ''#document'' [] [Elem 1 ''html'' [] [Elem 2 ''body'' []
           [Elem 3 ''canvas'' [(''id'', ''defaultCanvas0'')]
             [Elem 4 ''div'' [(''id'', ''defaultCanvas0_Description''), (''role'', ''region''),
                              (''aria-label'', ''Canvas Description'')]
               [Elem 5 ''table'' [(''id'', ''defaultCanvas0_fallbackTable'')]
                 [Elem 6 ''caption'' [] [Markup ''Canvas elements and their descriptions''],
                  Elem 7 ''tr'' [(''id'', ''defaultCanvas0_fte_my circle'')] []]]]]]],
       detached = [], next_nid = 8, canvas_id = ''defaultCanvas0'', dummyDOM = Some 2,
       descriptions =
         Some \<lparr>fallback = None, label = None,
               fallbackElements = Some [(''my circle'', None)], labelElements = None\<rparr>\<rparr>)"
  by code_simp

section \<open>Document order of paragraph and table\<close>

subsection \<open>Tree order under insertion\<close>

lemma ids_append: "ids (xs @ ys) = ids xs @ ids ys"
  by (induction xs rule: ids.induct) auto


lemma nids_simps:
  "nids [] = []"
  "nids (Markup s # ns) = nids ns"
  "nids (Elem i t a ks # ns) = i # nids ks @ nids ns"
  by (simp_all add: nids_def)

lemma find_append:
  "find P (xs @ ys) = (case find P xs of None \<Rightarrow> find P ys | Some x \<Rightarrow> Some x)"
  by (induction xs) auto

lemma first_id_simps:
  "first_id x [] = None"
  "first_id x (Markup s # ns) = first_id x ns"
  "first_id x (Elem i t a ks # ns) =
     (if map_of a ''id'' = Some x then Some i
      else (case first_id x ks of Some r \<Rightarrow> Some r | None \<Rightarrow> first_id x ns))"
  by (auto simp: first_id_def find_append split: option.splits)

lemma qs_CId: "qs [CId x] anc ns = first_id x ns"
  by (induction "[CId x]" anc ns rule: qs.induct)
     (auto simp: first_id_simps summary_def split: option.splits)

lemma tokens_no_space:
  "CHR '' '' \<notin> set s \<Longrightarrow> tokens w s = (if w @ s = [] then [] else [w @ s])"
  by (induction s arbitrary: w) auto

lemma name_start_name_char: "name_start c \<Longrightarrow> name_char c"
  by (simp add: name_char_def)

lemma name_char_hyphen: "name_char CHR ''-''"
  by (simp add: name_char_def)

lemma not_name_char_space: "\<not> name_char CHR '' ''"
  by (simp add: name_char_def name_start_def)

lemma is_ident_name_chars: "is_ident s \<Longrightarrow> list_all name_char s"
  by (cases s) (auto simp: name_start_name_char name_char_hyphen split: list.splits if_splits)

lemma name_char_no_space: "list_all name_char s \<Longrightarrow> CHR '' '' \<notin> set s"
  using not_name_char_space by (auto simp: list_all_iff)

lemma is_ident_append:
  "is_ident s \<Longrightarrow> list_all name_char u \<Longrightarrow> is_ident (s @ u)"
  by (cases s) (auto split: list.splits if_splits)

lemma parse_selector_id:
  assumes "is_ident x"
  shows "parse_selector (''#'' @ x) = Inr [CId x]"
proof -
  from assms have nc: "list_all name_char x" by (rule is_ident_name_chars)
  then have "CHR '' '' \<notin> set (''#'' @ x)"
    using name_char_no_space by auto
  then have "tokens [] (''#'' @ x) = [''#'' @ x]"
    using tokens_no_space [of "''#'' @ x" "[]"] by simp
  moreover have "parse_compound (''#'' @ x) = Inr (CId x)"
    using assms nc by (simp add: parse_compound_def)
  ultimately show ?thesis
    by (simp add: parse_selector_def)
qed

lemma locate_Elem:
  "locate r anc F = Some (n, anc') \<Longrightarrow> \<exists>t a ks. n = Elem r t a ks"
  by (induction r anc F rule: locate.induct) (auto split: if_splits option.splits)

lemma locate_nids:
  "locate r anc F = Some (n, anc') \<Longrightarrow> r \<in> set (nids F) \<and> set (nids (kids n)) \<subseteq> set (nids F)"
  by (induction r anc F rule: locate.induct)
     (auto simp: nids_simps split: if_splits option.splits)

lemma locate_None: "r \<notin> set (nids F) \<Longrightarrow> locate r anc F = None"
  by (induction r anc F rule: locate.induct) (auto simp: nids_simps)

lemma locate_distinct:
  "locate r anc F = Some (n, anc') \<Longrightarrow> distinct (nids F) \<Longrightarrow> distinct (nids (kids n))"
  by (induction r anc F rule: locate.induct)
     (auto simp: nids_simps split: if_splits option.splits)

lemma locate_not_self:
  "locate r anc F = Some (n, anc') \<Longrightarrow> distinct (nids F) \<Longrightarrow> r \<notin> set (nids (kids n))"
  by (induction r anc F rule: locate.induct)
     (auto simp: nids_simps split: if_splits option.splits dest: locate_nids)

lemma find_mem: "find P xs = Some x \<Longrightarrow> x \<in> set xs"
  by (induction xs) (auto split: if_splits)

lemma first_id_in: "first_id x ns = Some r \<Longrightarrow> r \<in> set (nids ns)"
  by (force simp: first_id_def nids_def dest!: find_mem)


lemma ins_adjacent_absent: "r \<notin> set (nids F) \<Longrightarrow> ins_adjacent pos r new F = F"
  by (induction pos r new F rule: ins_adjacent.induct) (auto simp: nids_simps)

lemma upd_kids_absent: "r \<notin> set (nids F) \<Longrightarrow> upd_kids r f F = F"
  by (induction r f F rule: upd_kids.induct) (auto simp: nids_simps)

lemma locate_ins_adjacent:
  "distinct (nids F) \<Longrightarrow> locate d anc0 F = Some (dn, anc) \<Longrightarrow> r \<in> set (nids (kids dn)) \<Longrightarrow>
   locate d anc0 (ins_adjacent pos r new F) =
     Some (Elem d (tag dn) (attrs dn) (ins_adjacent pos r new (kids dn)), anc)"
proof (induction d anc0 F rule: locate.induct)
  case (1 r anc)
  then show ?case by simp
next
  case (2 r anc s ns)
  then show ?case by (simp add: nids_simps)
next
  case (3 d anc0 i t a ks ns)
  show ?case
  proof (cases "i = d")
    case True
    with 3 have "dn = Elem i t a ks" by simp
    with 3 True have "r \<noteq> i" by (auto simp: nids_simps)
    with True \<open>dn = Elem i t a ks\<close> 3 show ?thesis by simp
  next
    case False
    note id = False
    show ?thesis
    proof (cases "locate d (summary t a # anc0) ks")
      case None
      with 3 id have l: "locate d anc0 ns = Some (dn, anc)" by simp
      then have "r \<in> set (nids ns)" using 3(5) locate_nids by blast
      with 3(3) have "r \<noteq> i" "r \<notin> set (nids ks)" by (auto simp: nids_simps)
      then have "ins_adjacent pos r new ks = ks" by (simp add: ins_adjacent_absent)
      moreover from 3(3) have "distinct (nids ns)" by (simp add: nids_simps)
      ultimately show ?thesis
        using 3(2) [OF id None _ l 3(5)] id None \<open>r \<noteq> i\<close> by simp
    next
      case (Some x)
      with 3 id have l: "locate d (summary t a # anc0) ks = Some (dn, anc)" by simp
      then have "r \<in> set (nids ks)" using 3(5) locate_nids by blast
      with 3(3) have "r \<noteq> i" by (auto simp: nids_simps)
      moreover from 3(3) have "distinct (nids ks)" by (simp add: nids_simps)
      ultimately show ?thesis
        using 3(1) [OF id _ l 3(5)] id by simp
    qed
  qed
qed

lemma locate_upd_kids:
  "distinct (nids F) \<Longrightarrow> locate d anc0 F = Some (dn, anc) \<Longrightarrow> r \<in> set (nids (kids dn)) \<Longrightarrow>
   locate d anc0 (upd_kids r f F) =
     Some (Elem d (tag dn) (attrs dn) (upd_kids r f (kids dn)), anc)"
proof (induction d anc0 F rule: locate.induct)
  case (1 r anc)
  then show ?case by simp
next
  case (2 r anc s ns)
  then show ?case by (simp add: nids_simps)
next
  case (3 d anc0 i t a ks ns)
  show ?case
  proof (cases "i = d")
    case True
    with 3 have "dn = Elem i t a ks" by simp
    with 3 True have "r \<noteq> i" by (auto simp: nids_simps)
    with True \<open>dn = Elem i t a ks\<close> 3 show ?thesis by simp
  next
    case False
    note id = False
    show ?thesis
    proof (cases "locate d (summary t a # anc0) ks")
      case None
      with 3 id have l: "locate d anc0 ns = Some (dn, anc)" by simp
      then have "r \<in> set (nids ns)" using 3(5) locate_nids by blast
      with 3(3) have "r \<noteq> i" "r \<notin> set (nids ks)" by (auto simp: nids_simps)
      then have "upd_kids r f ks = ks" by (simp add: upd_kids_absent)
      moreover from 3(3) have "distinct (nids ns)" by (simp add: nids_simps)
      ultimately show ?thesis
        using 3(2) [OF id None _ l 3(5)] id None \<open>r \<noteq> i\<close> by simp
    next
      case (Some x)
      with 3 id have l: "locate d (summary t a # anc0) ks = Some (dn, anc)" by simp
      then have "r \<in> set (nids ks)" using 3(5) locate_nids by blast
      with 3(3) have "r \<noteq> i" by (auto simp: nids_simps)
      moreover from 3(3) have "distinct (nids ks)" by (simp add: nids_simps)
      ultimately show ?thesis
        using 3(1) [OF id _ l 3(5)] id by simp
    qed
  qed
qed



lemma split_before:
  "distinct (nids F) \<Longrightarrow> r \<in> set (nids F) \<Longrightarrow>
   \<exists>A e B. ids F = A @ (r, e) # B \<and> ids (ins_adjacent Beforebegin r new F) = A @ ids new @ (r, e) # B"
proof (induction F rule: ids.induct)
  case 1
  then show ?case by (simp add: nids_simps)
next
  case (2 s ns)
  then show ?case by (simp add: nids_simps)
next
  case (3 i t a ks ns)
  let ?e = "(i, map_of a ''id'')"
  from 3(3) have d: "distinct (nids ks)" "distinct (nids ns)" by (simp_all add: nids_simps)
  show ?case
  proof (cases "r = i")
    case True
    have f1: "ids (Elem i t a ks # ns) = [] @ (r, map_of a ''id'') # (ids ks @ ids ns)"
      using True by simp
    have f2: "ids (ins_adjacent Beforebegin r new (Elem i t a ks # ns)) = [] @ ids new @ (r, map_of a ''id'') # (ids ks @ ids ns)"
      using True by (simp add: ids_append)
    show ?thesis by (intro exI conjI) (rule f1, rule f2)
  next
    case False
    show ?thesis
    proof (cases "r \<in> set (nids ks)")
      case True
      with 3(3) have "r \<notin> set (nids ns)" by (auto simp: nids_simps)
      then have same: "ins_adjacent Beforebegin r new ns = ns" by (simp add: ins_adjacent_absent)
      from 3(1) [OF d(1) True] obtain A e B where
        ab: "ids ks = A @ (r, e) # B" "ids (ins_adjacent Beforebegin r new ks) = A @ ids new @ (r, e) # B"
        by blast
      have f1: "ids (Elem i t a ks # ns) = (?e # A) @ (r, e) # (B @ ids ns)"
        using ab by simp
      have f2: "ids (ins_adjacent Beforebegin r new (Elem i t a ks # ns)) = (?e # A) @ ids new @ (r, e) # (B @ ids ns)"
        using ab same False by simp
      show ?thesis by (intro exI conjI) (rule f1, rule f2)
    next
      case notks: False
      with 3(4) False have inns: "r \<in> set (nids ns)" by (auto simp: nids_simps)
      from notks have same: "ins_adjacent Beforebegin r new ks = ks" by (simp add: ins_adjacent_absent)
      from 3(2) [OF d(2) inns] obtain A e B where
        ab: "ids ns = A @ (r, e) # B" "ids (ins_adjacent Beforebegin r new ns) = A @ ids new @ (r, e) # B"
        by blast
      have f1: "ids (Elem i t a ks # ns) = (?e # ids ks @ A) @ (r, e) # B"
        using ab by simp
      have f2: "ids (ins_adjacent Beforebegin r new (Elem i t a ks # ns)) = (?e # ids ks @ A) @ ids new @ (r, e) # B"
        using ab same False by simp
      show ?thesis by (intro exI conjI) (rule f1, rule f2)
    qed
  qed
qed

lemma split_after:
  "distinct (nids F) \<Longrightarrow> r \<in> set (nids F) \<Longrightarrow>
   \<exists>A B. ids F = A @ B \<and> r \<in> fst ` set A \<and> ids (ins_adjacent Afterend r new F) = A @ ids new @ B"
proof (induction F rule: ids.induct)
  case 1
  then show ?case by (simp add: nids_simps)
next
  case (2 s ns)
  then show ?case by (simp add: nids_simps)
next
  case (3 i t a ks ns)
  let ?e = "(i, map_of a ''id'')"
  from 3(3) have d: "distinct (nids ks)" "distinct (nids ns)" by (simp_all add: nids_simps)
  show ?case
  proof (cases "r = i")
    case True
    have f1: "ids (Elem i t a ks # ns) = (?e # ids ks) @ ids ns"
      using True by simp
    have f2: "ids (ins_adjacent Afterend r new (Elem i t a ks # ns)) = (?e # ids ks) @ ids new @ ids ns"
      using True by (simp add: ids_append)
    have f3: "r \<in> fst ` set (?e # ids ks)"
      using True by simp
    show ?thesis by (intro exI conjI) (rule f1, rule f3, rule f2)
  next
    case False
    show ?thesis
    proof (cases "r \<in> set (nids ks)")
      case True
      with 3(3) have "r \<notin> set (nids ns)" by (auto simp: nids_simps)
      then have same: "ins_adjacent Afterend r new ns = ns" by (simp add: ins_adjacent_absent)
      from 3(1) [OF d(1) True] obtain A B where
        ab: "ids ks = A @ B" "r \<in> fst ` set A" "ids (ins_adjacent Afterend r new ks) = A @ ids new @ B"
        by blast
      have f1: "ids (Elem i t a ks # ns) = (?e # A) @ (B @ ids ns)"
        using ab by simp
      have f2: "ids (ins_adjacent Afterend r new (Elem i t a ks # ns)) = (?e # A) @ ids new @ (B @ ids ns)"
        using ab same False by simp
      have f3: "r \<in> fst ` set (?e # A)"
        using ab by auto
      show ?thesis by (intro exI conjI) (rule f1, rule f3, rule f2)
    next
      case notks: False
      with 3(4) False have inns: "r \<in> set (nids ns)" by (auto simp: nids_simps)
      from notks have same: "ins_adjacent Afterend r new ks = ks" by (simp add: ins_adjacent_absent)
      from 3(2) [OF d(2) inns] obtain A B where
        ab: "ids ns = A @ B" "r \<in> fst ` set A" "ids (ins_adjacent Afterend r new ns) = A @ ids new @ B"
        by blast
      have f1: "ids (Elem i t a ks # ns) = (?e # ids ks @ A) @ B"
        using ab by simp
      have f2: "ids (ins_adjacent Afterend r new (Elem i t a ks # ns)) = (?e # ids ks @ A) @ ids new @ B"
        using ab same False by simp
      have f3: "r \<in> fst ` set (?e # ids ks @ A)"
        using ab by auto
      show ?thesis by (intro exI conjI) (rule f1, rule f3, rule f2)
    qed
  qed
qed

lemma split_append:
  "distinct (nids F) \<Longrightarrow> r \<in> set (nids F) \<Longrightarrow>
   \<exists>A B. ids F = A @ B \<and> r \<in> fst ` set A \<and> ids (upd_kids r (\<lambda>ks. ks @ c) F) = A @ ids c @ B"
proof (induction F rule: ids.induct)
  case 1
  then show ?case by (simp add: nids_simps)
next
  case (2 s ns)
  then show ?case by (simp add: nids_simps)
next
  case (3 i t a ks ns)
  let ?e = "(i, map_of a ''id'')"
  from 3(3) have d: "distinct (nids ks)" "distinct (nids ns)" by (simp_all add: nids_simps)
  show ?case
  proof (cases "r = i")
    case True
    have f1: "ids (Elem i t a ks # ns) = (?e # ids ks) @ ids ns"
      using True by simp
    have f2: "ids (upd_kids r (\<lambda>ks. ks @ c) (Elem i t a ks # ns)) = (?e # ids ks) @ ids c @ ids ns"
      using True by (simp add: ids_append)
    have f3: "r \<in> fst ` set (?e # ids ks)"
      using True by simp
    show ?thesis by (intro exI conjI) (rule f1, rule f3, rule f2)
  next
    case False
    show ?thesis
    proof (cases "r \<in> set (nids ks)")
      case True
      with 3(3) have "r \<notin> set (nids ns)" by (auto simp: nids_simps)
      then have same: "upd_kids r (\<lambda>ks. ks @ c) ns = ns" by (simp add: upd_kids_absent)
      from 3(1) [OF d(1) True] obtain A B where
        ab: "ids ks = A @ B" "r \<in> fst ` set A" "ids (upd_kids r (\<lambda>ks. ks @ c) ks) = A @ ids c @ B"
        by blast
      have f1: "ids (Elem i t a ks # ns) = (?e # A) @ (B @ ids ns)"
        using ab by simp
      have f2: "ids (upd_kids r (\<lambda>ks. ks @ c) (Elem i t a ks # ns)) = (?e # A) @ ids c @ (B @ ids ns)"
        using ab same False by simp
      have f3: "r \<in> fst ` set (?e # A)"
        using ab by auto
      show ?thesis by (intro exI conjI) (rule f1, rule f3, rule f2)
    next
      case notks: False
      with 3(4) False have inns: "r \<in> set (nids ns)" by (auto simp: nids_simps)
      from notks have same: "upd_kids r (\<lambda>ks. ks @ c) ks = ks" by (simp add: upd_kids_absent)
      from 3(2) [OF d(2) inns] obtain A B where
        ab: "ids ns = A @ B" "r \<in> fst ` set A" "ids (upd_kids r (\<lambda>ks. ks @ c) ns) = A @ ids c @ B"
        by blast
      have f1: "ids (Elem i t a ks # ns) = (?e # ids ks @ A) @ B"
        using ab by simp
      have f2: "ids (upd_kids r (\<lambda>ks. ks @ c) (Elem i t a ks # ns)) = (?e # ids ks @ A) @ ids c @ B"
        using ab same False by simp
      have f3: "r \<in> fst ` set (?e # ids ks @ A)"
        using ab by auto
      show ?thesis by (intro exI conjI) (rule f1, rule f3, rule f2)
    qed
  qed
qed


lemma ins_adjacent_split:
  assumes "distinct (nids F)" "r \<in> set (nids F)"
  shows "\<exists>A B. ids F = A @ B \<and> ids (ins_adjacent pos r new F) = A @ ids new @ B"
proof (cases pos)
  case Beforebegin
  from split_before [OF assms, of new] obtain A e B where
    "ids F = A @ (r, e) # B" "ids (ins_adjacent Beforebegin r new F) = A @ ids new @ (r, e) # B"
    by blast
  with Beforebegin show ?thesis by blast
next
  case Afterend
  from split_after [OF assms, of new] Afterend show ?thesis by blast
qed

lemma first_id_insert:
  assumes "ids K = A @ B" "ids K' = A @ N @ B" "\<forall>e\<in>set N. snd e \<noteq> Some x"
  shows "first_id x K' = first_id x K"
proof -
  from assms(3) have "find (\<lambda>e. snd e = Some x) N = None"
    by (auto simp: find_None_iff)
  with assms(1,2) show ?thesis
    by (simp add: first_id_def find_append split: option.splits)
qed

lemma first_id_new:
  assumes "ids K = A @ B" "ids K' = A @ (n, Some x) # N @ B" "first_id x K = None"
  shows "first_id x K' = Some n"
  using assms by (auto simp: first_id_def find_append split: option.splits)

lemma find_fst_mem: "find P A = Some (p, b) \<Longrightarrow> p \<in> fst ` set A"
  by (force dest: find_mem)

lemma first_id_prefix:
  assumes "ids K' = A @ (n, Some x) # B" "first_id x K' = Some p"
  shows "p = n \<or> p \<in> fst ` set A"
  using assms
  by (auto simp: first_id_def find_append split: option.splits dest: find_fst_mem)

lemma takeWhile_notin:
  "b \<notin> set X \<Longrightarrow> takeWhile (\<lambda>x. x \<noteq> b) (X @ Y) = X @ takeWhile (\<lambda>x. x \<noteq> b) Y"
  by (induction X) auto

lemma takeWhile_in:
  "b \<in> set X \<Longrightarrow> takeWhile (\<lambda>x. x \<noteq> b) (X @ Y) = takeWhile (\<lambda>x. x \<noteq> b) X"
  by (induction X) auto

lemma before_in_prefix: "b \<notin> set X \<Longrightarrow> a \<in> set X \<Longrightarrow> before_in (X @ b # Y) a b"
  by (simp add: before_in_def takeWhile_notin)

lemma before_in_insert:
  assumes "before_in (A @ B) a b" "b \<notin> set N"
  shows "before_in (A @ N @ B) a b"
proof (cases "b \<in> set A")
  case True
  then have "takeWhile (\<lambda>x. x \<noteq> b) (A @ N @ B) = takeWhile (\<lambda>x. x \<noteq> b) A"
    "takeWhile (\<lambda>x. x \<noteq> b) (A @ B) = takeWhile (\<lambda>x. x \<noteq> b) A"
    by (simp_all add: takeWhile_in)
  with assms show ?thesis by (simp add: before_in_def)
next
  case False
  with assms(2) have
    "takeWhile (\<lambda>x. x \<noteq> b) (A @ N @ B) = A @ N @ takeWhile (\<lambda>x. x \<noteq> b) B"
    "takeWhile (\<lambda>x. x \<noteq> b) (A @ B) = A @ takeWhile (\<lambda>x. x \<noteq> b) B"
    by (simp_all add: takeWhile_notin)
  with assms show ?thesis by (auto simp: before_in_def)
qed

lemma instantiate_fresh:
  "instantiate n h = (new, m) \<Longrightarrow>
   n \<le> m \<and> distinct (nids new) \<and> (\<forall>i\<in>set (nids new). n \<le> i \<and> i < m)"
proof (induction n h arbitrary: new m rule: instantiate.induct)
  case (1 n)
  then show ?case by (simp add: nids_simps)
next
  case (2 n s hs)
  then show ?case by (auto simp: nids_simps split: prod.splits)
next
  case (3 n t a cs hs)
  from 3(3) obtain ks k ns where
    c: "instantiate (Suc n) cs = (ks, k)" and h: "instantiate k hs = (ns, m)"
    and new: "new = Elem n t a ks # ns"
    by (auto split: prod.splits)
  from 3(1) [OF c] have i1: "Suc n \<le> k" "distinct (nids ks)"
    "\<forall>i\<in>set (nids ks). Suc n \<le> i \<and> i < k" by simp_all
  from 3(2) [OF c [symmetric] h] have i2: "k \<le> m" "distinct (nids ns)"
    "\<forall>i\<in>set (nids ns). k \<le> i \<and> i < m" by simp_all
  from i1 i2 show ?case
    unfolding new by (fastforce simp: nids_simps)
qed

subsection \<open>What the DOM operations do to the descendants of the root\<close>

lemma forest_set_forest: "F \<noteq> [] \<Longrightarrow> forest (set_forest F st) = F"
  by (cases F) (simp_all add: forest_def set_forest_def)

lemma next_nid_set_forest: "next_nid (set_forest F st) = next_nid st"
  by (cases F) (simp_all add: set_forest_def)

lemma ins_adjacent_nonempty: "F \<noteq> [] \<Longrightarrow> ins_adjacent pos r new F \<noteq> []"
  by (induction pos r new F rule: ins_adjacent.induct) (auto split: position.splits)

lemma upd_kids_nonempty: "F \<noteq> [] \<Longrightarrow> upd_kids r f F \<noteq> []"
  by (induction r f F rule: upd_kids.induct) auto

lemma forest_nonempty: "forest st \<noteq> []"
  by (simp add: forest_def)

lemma querySelector_id:
  "is_ident x \<Longrightarrow> locate d [] (forest st) = Some (dn, anc) \<Longrightarrow>
   querySelector d (CHR ''#'' # x) st = (Inr (first_id x (kids dn)), st)"
  using parse_selector_id [of x]
  by (cases dn) (simp_all add: querySelector_def qs_CId)

lemma querySelector_located:
  "querySelector d s st = (Inr r, st') \<Longrightarrow> \<exists>dn anc. locate d [] (forest st) = Some (dn, anc)"
  by (auto simp: querySelector_def split: sum.splits option.splits)

lemma wf_insert:
  assumes "distinct (nids F)" "\<forall>i\<in>set (nids F). i < n" "ids F = A @ B"
    "ids F' = A @ ids new @ B" "instantiate n h = (new, m)"
  shows "distinct (nids F') \<and> (\<forall>i\<in>set (nids F'). i < m)"
proof -
  from instantiate_fresh [OF assms(5)] have
    f: "n \<le> m" "distinct (nids new)" "\<forall>i\<in>set (nids new). n \<le> i \<and> i < m" by simp_all
  have n: "nids F = map fst A @ map fst B" "nids F' = map fst A @ nids new @ map fst B"
    using assms(3,4) by (simp_all add: nids_def)
  from assms(2) have old: "\<forall>i\<in>set (map fst A) \<union> set (map fst B). i < n"
    unfolding n by simp
  with f(3) have disj: "set (nids new) \<inter> set (map fst A) = {}"
    "set (nids new) \<inter> set (map fst B) = {}"
    by (meson disjoint_iff UnI1 UnI2 not_le)+
  from assms(1) have dA: "distinct (map fst A)" "distinct (map fst B)"
    "set (map fst A) \<inter> set (map fst B) = {}"
    unfolding n by simp_all
  have "distinct (nids F')"
    unfolding n using dA f(2) disj by (simp add: Int_Un_distrib) blast
  moreover have "\<forall>i\<in>set (nids F'). i < m"
    unfolding n using old f(1,3) by (auto intro: less_le_trans)
  ultimately show ?thesis by simp
qed

lemma wf_nodes_iff:
  "wf_nodes st \<longleftrightarrow> distinct (nids (forest st)) \<and> (\<forall>i\<in>set (nids (forest st)). i < next_nid st)"
  by (simp add: wf_nodes_def list_all_iff)

lemma insertAdjacentHTML_effect:
  assumes wf: "wf_nodes st" and loc: "locate d [] (forest st) = Some (dn, danc)"
    and r: "r \<in> set (nids (kids dn))"
    and call: "insertAdjacentHTML r pos h st = (Inr (), st')"
  shows "\<exists>new. instantiate (next_nid st) h = (new, next_nid st') \<and> wf_nodes st' \<and>
           locate d [] (forest st') =
             Some (Elem d (tag dn) (attrs dn) (ins_adjacent pos r new (kids dn)), danc)"
proof -
  obtain new m where inst: "instantiate (next_nid st) h = (new, m)"
    by (cases "instantiate (next_nid st) h")
  let ?F = "ins_adjacent pos r new (forest st)"
  from call inst have st': "st' = set_forest ?F (st\<lparr>next_nid := m\<rparr>)"
    by (auto simp: insertAdjacentHTML_def split: option.splits list.splits if_splits prod.splits)
  have ne: "?F \<noteq> []" by (simp add: ins_adjacent_nonempty forest_nonempty)
  have F: "forest st' = ?F"
    unfolding st' using forest_set_forest [OF ne] by (simp add: forest_def set_forest_def split: list.splits)
  have m: "next_nid st' = m"
    unfolding st' by (simp add: next_nid_set_forest)
  from wf have d: "distinct (nids (forest st))" and b: "\<forall>i\<in>set (nids (forest st)). i < next_nid st"
    by (simp_all add: wf_nodes_iff)
  from loc r have rin: "r \<in> set (nids (forest st))"
    using locate_nids by blast
  from ins_adjacent_split [OF d rin, of pos new] obtain A B where
    ab: "ids (forest st) = A @ B" "ids ?F = A @ ids new @ B" by blast
  from wf_insert [OF d b ab inst] have "wf_nodes st'"
    by (simp add: wf_nodes_iff F m)
  moreover from locate_ins_adjacent [OF d loc r, of pos new]
  have "locate d [] (forest st') =
          Some (Elem d (tag dn) (attrs dn) (ins_adjacent pos r new (kids dn)), danc)"
    by (simp add: F)
  ultimately show ?thesis using inst m by blast
qed

lemma appendChild_effect:
  assumes wf: "wf_nodes st" and loc: "locate d [] (forest st) = Some (dn, danc)"
    and r: "r \<in> set (nids (kids dn))"
    and k: "k \<notin> set (nids (forest st))" "k < next_nid st"
    and call: "appendChild r (Elem k t a []) st = (Inr (), st')"
  shows "wf_nodes st' \<and> next_nid st' = next_nid st \<and>
         locate d [] (forest st') =
           Some (Elem d (tag dn) (attrs dn) (upd_kids r (\<lambda>ks. ks @ [Elem k t a []]) (kids dn)), danc)"
proof -
  let ?c = "[Elem k t a []]"
  let ?F = "upd_kids r (\<lambda>ks. ks @ ?c) (forest st)"
  from call have st': "st' = set_forest ?F st"
    by (auto simp: appendChild_def split: option.splits)
  have ne: "?F \<noteq> []" by (simp add: upd_kids_nonempty forest_nonempty)
  have F: "forest st' = ?F"
    unfolding st' by (rule forest_set_forest [OF ne])
  have m: "next_nid st' = next_nid st"
    unfolding st' by (simp add: next_nid_set_forest)
  from wf have d: "distinct (nids (forest st))" and b: "\<forall>i\<in>set (nids (forest st)). i < next_nid st"
    by (simp_all add: wf_nodes_iff)
  from loc r have rin: "r \<in> set (nids (forest st))"
    using locate_nids by blast
  from split_append [OF d rin, of ?c] obtain A B where
    ab: "ids (forest st) = A @ B" "ids ?F = A @ ids ?c @ B" by blast
  have n: "nids (forest st) = map fst A @ map fst B" "nids ?F = map fst A @ k # map fst B"
    using ab by (simp_all add: nids_def)
  from d b k have "wf_nodes st'"
    unfolding wf_nodes_iff F m n by auto
  moreover from locate_upd_kids [OF d loc r, of "\<lambda>ks. ks @ ?c"]
  have "locate d [] (forest st') =
          Some (Elem d (tag dn) (attrs dn) (upd_kids r (\<lambda>ks. ks @ ?c) (kids dn)), danc)"
    by (simp add: F)
  ultimately show ?thesis using m by blast
qed

lemma instantiate_p_element:
  "instantiate n [p_element P] = ([Elem n ''p'' [(''id'', P)] []], Suc n)"
  by (simp add: p_element_def)

lemma fresh_not_in: "wf_nodes st \<Longrightarrow> next_nid st \<notin> set (nids (forest st))"
  by (auto simp: wf_nodes_iff)

lemma paragraph_inserted_before:
  assumes wf: "wf_nodes st" and loc: "locate d [] (forest st) = Some (dn, danc)"
    and t: "first_id T (kids dn) = Some t" and ne: "T \<noteq> P"
    and call: "insertAdjacentHTML t Beforebegin [p_element P] st = (Inr (), st1)"
  shows "\<exists>dn1. locate d [] (forest st1) = Some (dn1, danc) \<and> wf_nodes st1 \<and>
           first_id T (kids dn1) = Some t \<and>
           (\<forall>p. first_id P (kids dn1) = Some p \<longrightarrow> before_in (nids (kids dn1)) p t)"
proof -
  let ?K = "kids dn"
  let ?n = "next_nid st"
  let ?new = "[Elem ?n ''p'' [(''id'', P)] []]"
  let ?K1 = "ins_adjacent Beforebegin t ?new ?K"
  from t have tin: "t \<in> set (nids ?K)" by (rule first_id_in)
  from insertAdjacentHTML_effect [OF wf loc tin call]
  have wf1: "wf_nodes st1"
    and loc1: "locate d [] (forest st1) = Some (Elem d (tag dn) (attrs dn) ?K1, danc)"
    by (auto simp: instantiate_p_element)
  from loc wf have dK: "distinct (nids ?K)"
    using locate_distinct by (auto simp: wf_nodes_iff)
  from split_before [OF dK tin, of ?new] obtain A e B where
    ab: "ids ?K = A @ (t, e) # B" "ids ?K1 = A @ (?n, Some P) # (t, e) # B"
    by auto
  from ab(1) dK have tA: "t \<notin> fst ` set A"
    by (simp add: nids_def)
  from loc tin have "t \<in> set (nids (forest st))" using locate_nids by blast
  with fresh_not_in [OF wf] have tn: "t \<noteq> ?n" by auto
  have T1: "first_id T ?K1 = Some t"
    using first_id_insert [of ?K A "(t, e) # B" ?K1 "[(?n, Some P)]" T] ab t ne by simp
  have ord: "before_in (nids ?K1) p t" if "first_id P ?K1 = Some p" for p
  proof -
    from first_id_prefix [OF ab(2) that] have a: "p \<in> set (map fst A @ [?n])" by auto
    from tA tn have b: "t \<notin> set (map fst A @ [?n])" by auto
    have eq: "nids ?K1 = (map fst A @ [?n]) @ t # map fst B"
      using ab(2) by (simp add: nids_def)
    show ?thesis unfolding eq using b a by (rule before_in_prefix)
  qed
  from loc1 wf1 T1 ord show ?thesis by auto
qed

lemma table_inserted_after:
  assumes wf: "wf_nodes st" and loc: "locate d [] (forest st) = Some (dn, danc)"
    and p: "first_id P (kids dn) = Some p" and t: "first_id T (kids dn) = None"
    and inst: "instantiate (next_nid st) h = (new, m)"
    and new: "ids new = (next_nid st, Some T) # R" "\<forall>e\<in>set R. snd e \<noteq> Some P"
    and ne: "T \<noteq> P"
    and call: "insertAdjacentHTML p Afterend h st = (Inr (), st1)"
  shows "\<exists>dn1. locate d [] (forest st1) = Some (dn1, danc) \<and> wf_nodes st1 \<and>
           first_id P (kids dn1) = Some p \<and> first_id T (kids dn1) = Some (next_nid st) \<and>
           before_in (nids (kids dn1)) p (next_nid st)"
proof -
  let ?K = "kids dn"
  let ?n = "next_nid st"
  let ?K1 = "ins_adjacent Afterend p new ?K"
  from p have pin: "p \<in> set (nids ?K)" by (rule first_id_in)
  from insertAdjacentHTML_effect [OF wf loc pin call] inst
  have wf1: "wf_nodes st1"
    and loc1: "locate d [] (forest st1) = Some (Elem d (tag dn) (attrs dn) ?K1, danc)"
    by auto
  from loc wf have dK: "distinct (nids ?K)"
    using locate_distinct by (auto simp: wf_nodes_iff)
  from split_after [OF dK pin, of new] obtain A B where
    ab: "ids ?K = A @ B" "p \<in> fst ` set A" "ids ?K1 = A @ ids new @ B"
    by auto
  from loc have sub: "set (nids ?K) \<subseteq> set (nids (forest st))" using locate_nids by blast
  with fresh_not_in [OF wf] ab(1) have nA: "?n \<notin> set (map fst A)"
    by (auto simp: nids_def)
  have P1: "first_id P ?K1 = Some p"
    using first_id_insert [of ?K A B ?K1 "ids new" P] ab p new ne by simp
  have T1: "first_id T ?K1 = Some ?n"
    using first_id_new [of ?K A B ?K1 ?n T R] ab t new by simp
  have eq: "nids ?K1 = map fst A @ ?n # (map fst R @ map fst B)"
    using ab(3) new(1) by (simp add: nids_def)
  from ab(2) have pA: "p \<in> set (map fst A)" by simp
  have "before_in (nids ?K1) p ?n"
    unfolding eq using nA pA by (rule before_in_prefix)
  with loc1 wf1 P1 T1 show ?thesis by auto
qed

lemma row_appended:
  assumes wf: "wf_nodes st" and loc: "locate d [] (forest st) = Some (dn, danc)"
    and t: "t \<in> set (nids (kids dn))"
    and create: "createElement ''tr'' st = (Inr row, sta)"
    and call: "appendChild t (set_id row rid) sta = (Inr (), st2)"
  shows "\<exists>dn2. locate d [] (forest st2) = Some (dn2, danc) \<and> wf_nodes st2 \<and>
           (\<forall>x. x \<noteq> rid \<longrightarrow> first_id x (kids dn2) = first_id x (kids dn)) \<and>
           (\<forall>a b. before_in (nids (kids dn)) a b \<longrightarrow> before_in (nids (kids dn2)) a b)"
proof -
  let ?K = "kids dn"
  let ?n = "next_nid st"
  let ?c = "Elem ?n ''tr'' [(''id'', rid)] []"
  let ?K2 = "upd_kids t (\<lambda>ks. ks @ [?c]) ?K"
  from create have row: "row = Elem ?n ''tr'' [] []" and sta: "sta = st\<lparr>next_nid := Suc ?n\<rparr>"
    by (auto simp: createElement_def)
  have c: "set_id row rid = ?c" by (simp add: row set_id_def)
  have fa: "forest sta = forest st" by (simp add: sta forest_def)
  from wf have wfa: "wf_nodes sta"
    unfolding wf_nodes_iff fa by (auto simp: sta less_Suc_eq)
  have k: "?n \<notin> set (nids (forest sta))" "?n < next_nid sta"
    using fresh_not_in [OF wf] unfolding fa by (simp_all add: sta)
  from loc have loca: "locate d [] (forest sta) = Some (dn, danc)" by (simp add: fa)
  from appendChild_effect [OF wfa loca t k] call c
  have wf2: "wf_nodes st2"
    and loc2: "locate d [] (forest st2) = Some (Elem d (tag dn) (attrs dn) ?K2, danc)"
    by auto
  from loc wf have dK: "distinct (nids ?K)"
    using locate_distinct by (auto simp: wf_nodes_iff)
  from split_append [OF dK t, of "[?c]"] obtain A B where
    ab: "ids ?K = A @ B" "ids ?K2 = A @ [(?n, Some rid)] @ B"
    by auto
  have f: "first_id x ?K2 = first_id x ?K" if "x \<noteq> rid" for x
    using first_id_insert [of ?K A B ?K2 "[(?n, Some rid)]" x] ab that by simp
  from loc have sub: "set (nids ?K) \<subseteq> set (nids (forest st))" using locate_nids by blast
  have o: "before_in (nids ?K2) a b" if "before_in (nids ?K) a b" for a b
  proof -
    from that have "b \<in> set (nids ?K)" by (simp add: before_in_def)
    with sub fresh_not_in [OF wf] have "b \<notin> set [?n]" by auto
    moreover have "nids ?K = map fst A @ map fst B" "nids ?K2 = map fst A @ [?n] @ map fst B"
      using ab by (simp_all add: nids_def)
    ultimately show ?thesis using that before_in_insert by metis
  qed
  from loc2 wf2 f o show ?thesis by auto
qed

subsection \<open>The two scaffold branches of each region\<close>

lemma querySelector_located_fst:
  "fst (querySelector d s st) = Inr r \<Longrightarrow> \<exists>dn anc. locate d [] (forest st) = Some (dn, anc)"
  by (auto simp: querySelector_def split: sum.splits option.splits)

lemma querySelector_state: "snd (querySelector d s st) = st"
  by (auto simp: querySelector_def split: sum.splits option.splits)

lemma bind_qs:
  "is_ident x \<Longrightarrow> locate d [] (forest st) = Some (dn, anc) \<Longrightarrow>
   bind (querySelector d (CHR ''#'' # x)) f st = f (first_id x (kids dn)) st"
  by (simp add: bind_def querySelector_id)

lemma bind_assoc: "bind (bind m f) g = bind m (\<lambda>x. bind (f x) g)"
  by (auto simp: bind_def fun_eq_iff split: prod.splits sum.splits)

lemma bind_return: "bind (return x) f st = f x st"
  by (simp add: bind_def return_def)

lemma bind_throw: "bind (throw e) f st = (Inl e, st)"
  by (simp add: bind_def throw_def)

lemma non_null_simps: "non_null (Some x) = return x" "non_null None = throw TypeError"
  by (simp_all add: non_null_def)

lemma seq_cases:
  "seq m k st = (case m st of (Inl e, s) \<Rightarrow> (Inl e, s) | (Inr x, s) \<Rightarrow> k s)"
  by (simp add: seq_def bind_def)

lemma kids_of_located: "locate d [] (forest st) = Some (dn, anc) \<Longrightarrow> kids_of st d = kids dn"
  by (simp add: kids_of_def)

lemma suffix_chars:
  "list_all name_char descContainer" "list_all name_char fallbackDescId"
  "list_all name_char fallbackTableId" "list_all name_char labelContainer"
  "list_all name_char labelDescId" "list_all name_char labelTableId"
  by (simp_all add: descContainer_def fallbackDescId_def fallbackTableId_def
      labelContainer_def labelDescId_def labelTableId_def name_char_def name_start_def)

lemmas suffix_ident = suffix_chars [THEN is_ident_append [rotated]]

lemma fallback_paragraph_first:
  assumes wf: "wf_nodes st" and id: "is_ident cnvId"
    and q: "fst (querySelector d (''#'' @ cnvId @ descContainer) st) = Inr (Some c)"
    and call: "fst (describeFallbackHTML d cnvId st) = Inr (Some p)"
  shows "\<exists>t. fst (querySelector d (''#'' @ cnvId @ fallbackTableId) st) = Inr (Some t) \<and>
           fst (querySelector d (''#'' @ cnvId @ fallbackTableId)
                  (run (describeFallbackHTML d cnvId) st)) = Inr (Some t) \<and>
           precedes_under (run (describeFallbackHTML d cnvId) st) d p t"
proof -
  let ?T = "cnvId @ fallbackTableId" and ?P = "cnvId @ fallbackDescId"
  from q obtain dn danc where loc: "locate d [] (forest st) = Some (dn, danc)"
    using querySelector_located_fst by blast
  note idents = suffix_ident [OF id]
  from q have c: "first_id (cnvId @ descContainer) (kids dn) = Some c"
    by (simp add: querySelector_id [OF idents(1) loc])
  let ?tail = "bind (querySelector d (''#'' @ ?P))
     (\<lambda>found. if found \<noteq> None then querySelector d (''#'' @ ?P) else return None)"
  have unf: "describeFallbackHTML d cnvId st =
     seq (bind (non_null (first_id ?T (kids dn)))
            (\<lambda>t. insertAdjacentHTML t Beforebegin [p_element ?P])) ?tail st"
    by (simp add: describeFallbackHTML_def bind_qs [OF idents(1) loc] bind_qs [OF idents(3) loc]
        c seq_def bind_assoc)
  show ?thesis
  proof (cases "first_id ?T (kids dn)")
    case None
    with unf call show ?thesis
      by (simp add: seq_cases non_null_simps bind_throw)
  next
    case (Some t)
    obtain rs st1 where ins: "insertAdjacentHTML t Beforebegin [p_element ?P] st = (rs, st1)"
      by (cases "insertAdjacentHTML t Beforebegin [p_element ?P] st")
    show ?thesis
    proof (cases rs)
      case (Inl e)
      with unf call Some ins show ?thesis
        by (simp add: seq_cases non_null_simps bind_return)
    next
      case (Inr u)
      with ins have ins': "insertAdjacentHTML t Beforebegin [p_element ?P] st = (Inr (), st1)"
        by simp
      have ne: "?T \<noteq> ?P" by (simp add: fallbackTableId_def fallbackDescId_def)
      from paragraph_inserted_before [OF wf loc Some ne ins'] obtain dn1 where
        loc1: "locate d [] (forest st1) = Some (dn1, danc)" and
        T1: "first_id ?T (kids dn1) = Some t" and
        ord: "\<And>p. first_id ?P (kids dn1) = Some p \<Longrightarrow> before_in (nids (kids dn1)) p t"
        by blast
      have tail: "?tail st1 = (Inr (first_id ?P (kids dn1)), st1)"
        by (simp add: bind_qs [OF idents(2) loc1] querySelector_id [OF idents(2) loc1] return_def)
      from unf Some ins' tail have res: "describeFallbackHTML d cnvId st
          = (Inr (first_id ?P (kids dn1)), st1)"
        by (simp add: seq_cases non_null_simps bind_return)
      with call have p: "first_id ?P (kids dn1) = Some p" by simp
      from res have run: "run (describeFallbackHTML d cnvId) st = st1"
        by (simp add: run_def)
      have "fst (querySelector d (''#'' @ ?T) st) = Inr (Some t)"
        by (simp add: querySelector_id [OF idents(3) loc] Some)
      moreover have "fst (querySelector d (''#'' @ ?T) st1) = Inr (Some t)"
        by (simp add: querySelector_id [OF idents(3) loc1] T1)
      moreover have "precedes_under st1 d p t"
        by (simp add: precedes_under_def kids_of_located [OF loc1] ord [OF p])
      ultimately show ?thesis
        unfolding run by blast
    qed
  qed
qed

lemma instantiate_tables:
  "instantiate n [fallback_table c] =
     ([Elem n ''table'' [(''id'', c @ fallbackTableId)]
         [Elem (Suc n) ''caption'' [] [Markup ''Canvas elements and their descriptions'']]],
      Suc (Suc n))"
  "instantiate n [label_table c] = ([Elem n ''table'' [(''id'', c @ labelTableId)] []], Suc n)"
  by (simp_all add: fallback_table_def label_table_def)

lemma row_part:
  assumes wf: "wf_nodes st" and loc: "locate d [] (forest st) = Some (dn, danc)"
    and id: "is_ident T" and t: "first_id T (kids dn) = Some t"
    and row: "row = bind (createElement ''tr'') (\<lambda>tableRow.
                 bind (querySelector d (CHR ''#'' # T)) (\<lambda>tbl.
                 bind (non_null tbl) (\<lambda>t.
                 seq (appendChild t (set_id tableRow rid))
                 (querySelector d (CHR ''#'' # rid)))))"
    and call: "fst (row st) = Inr r"
  shows "\<exists>dn2. locate d [] (forest (snd (row st))) = Some (dn2, danc) \<and>
           (\<forall>x. x \<noteq> rid \<longrightarrow> first_id x (kids dn2) = first_id x (kids dn)) \<and>
           (\<forall>a b. before_in (nids (kids dn)) a b \<longrightarrow> before_in (nids (kids dn2)) a b)"
proof -
  let ?n = "next_nid st"
  let ?rw = "Elem ?n ''tr'' [] []"
  let ?sta = "st\<lparr>next_nid := Suc ?n\<rparr>"
  have create: "createElement ''tr'' st = (Inr ?rw, ?sta)"
    by (simp add: createElement_def)
  have loca: "locate d [] (forest ?sta) = Some (dn, danc)"
    using loc by (simp add: forest_def)
  obtain rs st2 where app: "appendChild t (set_id ?rw rid) ?sta = (rs, st2)"
    by (cases "appendChild t (set_id ?rw rid) ?sta")
  have unf: "row st = seq (appendChild t (set_id ?rw rid)) (querySelector d (CHR ''#'' # rid)) ?sta"
    unfolding row
    by (simp add: bind_def [of "createElement ''tr''"] create bind_qs [OF id loca] t
        non_null_simps bind_return)
  show ?thesis
  proof (cases rs)
    case (Inl e)
    with unf call app show ?thesis by (simp add: seq_cases)
  next
    case (Inr u)
    with app have app': "appendChild t (set_id ?rw rid) ?sta = (Inr (), st2)" by simp
    from t have tin: "t \<in> set (nids (kids dn))" by (rule first_id_in)
    from row_appended [OF wf loc tin create app'] obtain dn2 where
      r: "locate d [] (forest st2) = Some (dn2, danc)"
         "\<forall>x. x \<noteq> rid \<longrightarrow> first_id x (kids dn2) = first_id x (kids dn)"
         "\<forall>a b. before_in (nids (kids dn)) a b \<longrightarrow> before_in (nids (kids dn2)) a b"
      by blast
    from unf app' have "snd (row st) = st2"
      by (simp add: seq_cases querySelector_state)
    with r show ?thesis by simp
  qed
qed


lemma fallback_table_second:
  assumes wf: "wf_nodes st" and id: "is_ident cnvId"
    and q: "fst (querySelector d (''#'' @ cnvId @ descContainer) st) = Inr (Some c)"
    and tq: "fst (querySelector d (''#'' @ cnvId @ fallbackTableId) st) = Inr None"
    and call: "fst (descElementFallbackHTML d cnvId name st) = Inr r"
  shows "\<exists>p t. fst (querySelector d (''#'' @ cnvId @ fallbackDescId) st) = Inr (Some p) \<and>
           fst (querySelector d (''#'' @ cnvId @ fallbackDescId)
                  (run (descElementFallbackHTML d cnvId name) st)) = Inr (Some p) \<and>
           fst (querySelector d (''#'' @ cnvId @ fallbackTableId)
                  (run (descElementFallbackHTML d cnvId name) st)) = Inr (Some t) \<and>
           precedes_under (run (descElementFallbackHTML d cnvId name) st) d p t"
proof -
  let ?T = "cnvId @ fallbackTableId" and ?P = "cnvId @ fallbackDescId"
  let ?rid = "cnvId @ fallbackTableElId @ name"
  from q obtain dn danc where loc: "locate d [] (forest st) = Some (dn, danc)"
    using querySelector_located_fst by blast
  note idents = suffix_ident [OF id]
  from q have c: "first_id (cnvId @ descContainer) (kids dn) = Some c"
    by (simp add: querySelector_id [OF idents(1) loc])
  from tq have tn: "first_id ?T (kids dn) = None"
    by (simp add: querySelector_id [OF idents(3) loc])
  define row where "row = bind (createElement ''tr'') (\<lambda>tableRow.
                 bind (querySelector d (CHR ''#'' # ?T)) (\<lambda>tbl.
                 bind (non_null tbl) (\<lambda>t.
                 seq (appendChild t (set_id tableRow ?rid))
                 (querySelector d (CHR ''#'' # ?rid)))))"
  have unf: "descElementFallbackHTML d cnvId name st =
     seq (bind (non_null (first_id ?P (kids dn)))
            (\<lambda>p. insertAdjacentHTML p Afterend [fallback_table cnvId])) row st"
    by (simp add: descElementFallbackHTML_def row_def bind_qs [OF idents(1) loc]
        bind_qs [OF idents(3) loc] bind_qs [OF idents(2) loc] c tn seq_def bind_assoc)
  show ?thesis
  proof (cases "first_id ?P (kids dn)")
    case None
    with unf call show ?thesis
      by (simp add: seq_cases non_null_simps bind_throw)
  next
    case (Some p)
    obtain rs st1 where ins: "insertAdjacentHTML p Afterend [fallback_table cnvId] st = (rs, st1)"
      by (cases "insertAdjacentHTML p Afterend [fallback_table cnvId] st")
    show ?thesis
    proof (cases rs)
      case (Inl e)
      with unf call Some ins show ?thesis
        by (simp add: seq_cases non_null_simps bind_return)
    next
      case (Inr u)
      with ins have ins': "insertAdjacentHTML p Afterend [fallback_table cnvId] st = (Inr (), st1)"
        by simp
      have ne: "?T \<noteq> ?P" by (simp add: fallbackTableId_def fallbackDescId_def)
      obtain new m where inst: "instantiate (next_nid st) [fallback_table cnvId] = (new, m)"
        by (cases "instantiate (next_nid st) [fallback_table cnvId]")
      then obtain R where new: "ids new = (next_nid st, Some ?T) # R"
        "\<forall>e\<in>set R. snd e \<noteq> Some ?P"
        by (auto simp: instantiate_tables)
      from table_inserted_after [OF wf loc Some tn inst new ne ins'] obtain dn1 where
        loc1: "locate d [] (forest st1) = Some (dn1, danc)" and wf1: "wf_nodes st1" and
        P1: "first_id ?P (kids dn1) = Some p" and
        T1: "first_id ?T (kids dn1) = Some (next_nid st)" and
        ord: "before_in (nids (kids dn1)) p (next_nid st)"
        by blast
      from unf Some ins' have res: "descElementFallbackHTML d cnvId name st = row st1"
        by (simp add: seq_cases non_null_simps bind_return)
      with call have call1: "fst (row st1) = Inr r" by simp
      from row_part [OF wf1 loc1 idents(3) T1 row_def call1] obtain dn2 where
        loc2: "locate d [] (forest (snd (row st1))) = Some (dn2, danc)" and
        same: "\<And>x. x \<noteq> ?rid \<Longrightarrow> first_id x (kids dn2) = first_id x (kids dn1)" and
        keep: "\<And>a b. before_in (nids (kids dn1)) a b \<Longrightarrow> before_in (nids (kids dn2)) a b"
        by blast
      from res have run: "run (descElementFallbackHTML d cnvId name) st = snd (row st1)"
        by (simp add: run_def)
      have r1: "?P \<noteq> ?rid" "?T \<noteq> ?rid"
        by (simp_all add: fallbackTableId_def fallbackDescId_def fallbackTableElId_def)
      have "fst (querySelector d (''#'' @ ?P) st) = Inr (Some p)"
        by (simp add: querySelector_id [OF idents(2) loc] Some)
      moreover have "fst (querySelector d (''#'' @ ?P) (snd (row st1))) = Inr (Some p)"
        by (simp add: querySelector_id [OF idents(2) loc2] same [OF r1(1)] P1)
      moreover have "fst (querySelector d (''#'' @ ?T) (snd (row st1))) = Inr (Some (next_nid st))"
        by (simp add: querySelector_id [OF idents(3) loc2] same [OF r1(2)] T1)
      moreover have "precedes_under (snd (row st1)) d p (next_nid st)"
        by (simp add: precedes_under_def kids_of_located [OF loc2] keep [OF ord])
      ultimately show ?thesis
        unfolding run by blast
    qed
  qed
qed

lemma label_table_second:
  assumes wf: "wf_nodes st" and id: "is_ident cnvId"
    and q: "fst (querySelector d (''#'' @ cnvId @ labelContainer) st) = Inr (Some c)"
    and tq: "fst (querySelector d (''#'' @ cnvId @ labelTableId) st) = Inr None"
    and call: "fst (descElementLabelHTML d cnvId name st) = Inr r"
  shows "\<exists>p t. fst (querySelector d (''#'' @ cnvId @ labelDescId) st) = Inr (Some p) \<and>
           fst (querySelector d (''#'' @ cnvId @ labelDescId)
                  (run (descElementLabelHTML d cnvId name) st)) = Inr (Some p) \<and>
           fst (querySelector d (''#'' @ cnvId @ labelTableId)
                  (run (descElementLabelHTML d cnvId name) st)) = Inr (Some t) \<and>
           precedes_under (run (descElementLabelHTML d cnvId name) st) d p t"
proof -
  let ?T = "cnvId @ labelTableId" and ?P = "cnvId @ labelDescId"
  let ?rid = "cnvId @ labelTableElId @ name"
  from q obtain dn danc where loc: "locate d [] (forest st) = Some (dn, danc)"
    using querySelector_located_fst by blast
  note idents = suffix_ident [OF id]
  from q have c: "first_id (cnvId @ labelContainer) (kids dn) = Some c"
    by (simp add: querySelector_id [OF idents(4) loc])
  from tq have tn: "first_id ?T (kids dn) = None"
    by (simp add: querySelector_id [OF idents(6) loc])
  define row where "row = bind (createElement ''tr'') (\<lambda>tableRow.
                 bind (querySelector d (CHR ''#'' # ?T)) (\<lambda>tbl.
                 bind (non_null tbl) (\<lambda>t.
                 seq (appendChild t (set_id tableRow ?rid))
                 (querySelector d (CHR ''#'' # ?rid)))))"
  have unf: "descElementLabelHTML d cnvId name st =
     seq (bind (non_null (first_id ?P (kids dn)))
            (\<lambda>p. insertAdjacentHTML p Afterend [label_table cnvId])) row st"
    by (simp add: descElementLabelHTML_def row_def bind_qs [OF idents(4) loc]
        bind_qs [OF idents(6) loc] bind_qs [OF idents(5) loc] c tn seq_def bind_assoc)
  show ?thesis
  proof (cases "first_id ?P (kids dn)")
    case None
    with unf call show ?thesis
      by (simp add: seq_cases non_null_simps bind_throw)
  next
    case (Some p)
    obtain rs st1 where ins: "insertAdjacentHTML p Afterend [label_table cnvId] st = (rs, st1)"
      by (cases "insertAdjacentHTML p Afterend [label_table cnvId] st")
    show ?thesis
    proof (cases rs)
      case (Inl e)
      with unf call Some ins show ?thesis
        by (simp add: seq_cases non_null_simps bind_return)
    next
      case (Inr u)
      with ins have ins': "insertAdjacentHTML p Afterend [label_table cnvId] st = (Inr (), st1)"
        by simp
      have ne: "?T \<noteq> ?P" by (simp add: labelTableId_def labelDescId_def)
      obtain new m where inst: "instantiate (next_nid st) [label_table cnvId] = (new, m)"
        by (cases "instantiate (next_nid st) [label_table cnvId]")
      then obtain R where new: "ids new = (next_nid st, Some ?T) # R"
        "\<forall>e\<in>set R. snd e \<noteq> Some ?P"
        by (auto simp: instantiate_tables)
      from table_inserted_after [OF wf loc Some tn inst new ne ins'] obtain dn1 where
        loc1: "locate d [] (forest st1) = Some (dn1, danc)" and wf1: "wf_nodes st1" and
        P1: "first_id ?P (kids dn1) = Some p" and
        T1: "first_id ?T (kids dn1) = Some (next_nid st)" and
        ord: "before_in (nids (kids dn1)) p (next_nid st)"
        by blast
      from unf Some ins' have res: "descElementLabelHTML d cnvId name st = row st1"
        by (simp add: seq_cases non_null_simps bind_return)
      with call have call1: "fst (row st1) = Inr r" by simp
      from row_part [OF wf1 loc1 idents(6) T1 row_def call1] obtain dn2 where
        loc2: "locate d [] (forest (snd (row st1))) = Some (dn2, danc)" and
        same: "\<And>x. x \<noteq> ?rid \<Longrightarrow> first_id x (kids dn2) = first_id x (kids dn1)" and
        keep: "\<And>a b. before_in (nids (kids dn1)) a b \<Longrightarrow> before_in (nids (kids dn2)) a b"
        by blast
      from res have run: "run (descElementLabelHTML d cnvId name) st = snd (row st1)"
        by (simp add: run_def)
      have r1: "?P \<noteq> ?rid" "?T \<noteq> ?rid"
        by (simp_all add: labelTableId_def labelDescId_def labelTableElId_def)
      have "fst (querySelector d (''#'' @ ?P) st) = Inr (Some p)"
        by (simp add: querySelector_id [OF idents(5) loc] Some)
      moreover have "fst (querySelector d (''#'' @ ?P) (snd (row st1))) = Inr (Some p)"
        by (simp add: querySelector_id [OF idents(5) loc2] same [OF r1(1)] P1)
      moreover have "fst (querySelector d (''#'' @ ?T) (snd (row st1))) = Inr (Some (next_nid st))"
        by (simp add: querySelector_id [OF idents(6) loc2] same [OF r1(2)] T1)
      moreover have "precedes_under (snd (row st1)) d p (next_nid st)"
        by (simp add: precedes_under_def kids_of_located [OF loc2] keep [OF ord])
      ultimately show ?thesis
        unfolding run by blast
    qed
  qed
qed


lemma label_paragraph_first:
  assumes wf: "wf_nodes st" and id: "is_ident cnvId"
    and q: "fst (querySelector d (''#'' @ cnvId @ labelContainer) st) = Inr (Some c)"
    and tq: "fst (querySelector d (''#'' @ cnvId @ labelTableId) st) = Inr (Some t)"
    and call: "fst (describeLabelHTML d cnvId st) = Inr (Some p)"
  shows "fst (querySelector d (''#'' @ cnvId @ labelTableId)
                (run (describeLabelHTML d cnvId) st)) = Inr (Some t) \<and>
         precedes_under (run (describeLabelHTML d cnvId) st) d p t"
proof -
  let ?T = "cnvId @ labelTableId" and ?P = "cnvId @ labelDescId"
  from q obtain dn danc where loc: "locate d [] (forest st) = Some (dn, danc)"
    using querySelector_located_fst by blast
  note idents = suffix_ident [OF id]
  from q have c: "first_id (cnvId @ labelContainer) (kids dn) = Some c"
    by (simp add: querySelector_id [OF idents(4) loc])
  from tq have t: "first_id ?T (kids dn) = Some t"
    by (simp add: querySelector_id [OF idents(6) loc])
  let ?tail = "bind (querySelector d (''#'' @ ?P))
     (\<lambda>found. if found \<noteq> None then querySelector d (''#'' @ ?P) else return None)"
  have unf: "describeLabelHTML d cnvId st =
     seq (insertAdjacentHTML t Beforebegin [p_element ?P]) ?tail st"
    by (simp add: describeLabelHTML_def bind_qs [OF idents(4) loc] bind_qs [OF idents(6) loc]
        c t seq_def bind_assoc non_null_simps bind_return)
  obtain rs st1 where ins: "insertAdjacentHTML t Beforebegin [p_element ?P] st = (rs, st1)"
    by (cases "insertAdjacentHTML t Beforebegin [p_element ?P] st")
  show ?thesis
  proof (cases rs)
    case (Inl e)
    with unf call ins show ?thesis
      by (simp add: seq_cases)
  next
    case (Inr u)
    with ins have ins': "insertAdjacentHTML t Beforebegin [p_element ?P] st = (Inr (), st1)"
      by simp
    have ne: "?T \<noteq> ?P" by (simp add: labelTableId_def labelDescId_def)
    from paragraph_inserted_before [OF wf loc t ne ins'] obtain dn1 where
      loc1: "locate d [] (forest st1) = Some (dn1, danc)" and
      T1: "first_id ?T (kids dn1) = Some t" and
      ord: "\<And>p. first_id ?P (kids dn1) = Some p \<Longrightarrow> before_in (nids (kids dn1)) p t"
      by blast
    have tail: "?tail st1 = (Inr (first_id ?P (kids dn1)), st1)"
      by (simp add: bind_qs [OF idents(5) loc1] querySelector_id [OF idents(5) loc1] return_def)
    from unf ins' tail have res: "describeLabelHTML d cnvId st
        = (Inr (first_id ?P (kids dn1)), st1)"
      by (simp add: seq_cases)
    with call have p: "first_id ?P (kids dn1) = Some p" by simp
    from res have run: "run (describeLabelHTML d cnvId) st = st1"
      by (simp add: run_def)
    have "fst (querySelector d (''#'' @ ?T) st1) = Inr (Some t)"
      by (simp add: querySelector_id [OF idents(6) loc1] T1)
    moreover have "precedes_under st1 d p t"
      by (simp add: precedes_under_def kids_of_located [OF loc1] ord [OF p])
    ultimately show ?thesis
      unfolding run by blast
  qed
qed

subsection \<open>A call of describe after the table exists\<close>

lemma locate_inserted:
  "t \<in> set (nids F) \<Longrightarrow> n \<notin> set (nids F) \<Longrightarrow>
   \<exists>anc'. locate n anc (ins_adjacent pos t [Elem n tg a []] F) = Some (Elem n tg a [], anc')"
proof (induction pos t "[Elem n tg a []]" F arbitrary: anc rule: ins_adjacent.induct)
  case (1 pos r)
  then show ?case by (simp add: nids_simps)
next
  case (2 pos r s ns)
  then show ?case by (simp add: nids_simps)
next
  case (3 pos r i t' a' ks ns)
  show ?case
  proof (cases "i = r")
    case True
    with 3 show ?thesis by (cases pos) (auto simp: nids_simps locate_None)
  next
    case False
    from 3(4) have ni: "n \<noteq> i" "n \<notin> set (nids ks)" "n \<notin> set (nids ns)"
      by (auto simp: nids_simps)
    show ?thesis
    proof (cases "r \<in> set (nids ks)")
      case True
      from 3(1) [OF False True ni(2)] obtain anc' where
        "locate n (summary t' a' # anc) (ins_adjacent pos r [Elem n tg a []] ks)
           = Some (Elem n tg a [], anc')" by blast
      with False ni show ?thesis by simp
    next
      case notks: False
      with 3(3) False have inns: "r \<in> set (nids ns)" by (auto simp: nids_simps)
      from notks have same: "ins_adjacent pos r [Elem n tg a []] ks = ks"
        by (simp add: ins_adjacent_absent)
      from 3(2) [OF False inns ni(3)] obtain anc' where
        "locate n anc (ins_adjacent pos r [Elem n tg a []] ns) = Some (Elem n tg a [], anc')"
        by blast
      with False ni same show ?thesis by (simp add: locate_None)
    qed
  qed
qed

lemma upd_kids_inserted:
  "n \<notin> set (nids F) \<Longrightarrow>
   upd_kids n f (ins_adjacent pos t [Elem n tg a []] F) = ins_adjacent pos t [Elem n tg a (f [])] F"
  by (induction pos t "[Elem n tg a []]" F rule: ins_adjacent.induct)
     (auto simp: nids_simps upd_kids_absent split: position.splits)


lemma before_insert_order:
  assumes dF: "distinct (nids F)" and loc: "locate d [] F = Some (dn, danc)"
    and t: "first_id T (kids dn) = Some t" and ne: "T \<noteq> P"
    and new: "ids new = [(n, Some P)]" and n: "n \<notin> set (nids F)"
  shows "\<exists>dn1. locate d [] (ins_adjacent Beforebegin t new F) = Some (dn1, danc) \<and>
           first_id T (kids dn1) = Some t \<and>
           (\<forall>p. first_id P (kids dn1) = Some p \<longrightarrow> before_in (nids (kids dn1)) p t) \<and>
           (first_id P (kids dn) = None \<longrightarrow> first_id P (kids dn1) = Some n)"
proof -
  let ?K = "kids dn"
  let ?K1 = "ins_adjacent Beforebegin t new ?K"
  from t have tin: "t \<in> set (nids ?K)" by (rule first_id_in)
  have loc1: "locate d [] (ins_adjacent Beforebegin t new F)
                = Some (Elem d (tag dn) (attrs dn) ?K1, danc)"
    by (rule locate_ins_adjacent [OF dF loc tin])
  from loc dF have dK: "distinct (nids ?K)" by (rule locate_distinct)
  from split_before [OF dK tin, of new] new obtain A e B where
    ab: "ids ?K = A @ (t, e) # B" "ids ?K1 = A @ (n, Some P) # (t, e) # B"
    by auto
  from ab(1) dK have tA: "t \<notin> fst ` set A"
    by (simp add: nids_def)
  from loc tin have "t \<in> set (nids F)" using locate_nids by blast
  with n have tn: "t \<noteq> n" by auto
  have T1: "first_id T ?K1 = Some t"
    using first_id_insert [of ?K A "(t, e) # B" ?K1 "[(n, Some P)]" T] ab t ne by simp
  have ord: "before_in (nids ?K1) p t" if "first_id P ?K1 = Some p" for p
  proof -
    from first_id_prefix [OF ab(2) that] have a: "p \<in> set (map fst A @ [n])" by auto
    from tA tn have b: "t \<notin> set (map fst A @ [n])" by auto
    have eq: "nids ?K1 = (map fst A @ [n]) @ t # map fst B"
      using ab(2) by (simp add: nids_def)
    show ?thesis unfolding eq using b a by (rule before_in_prefix)
  qed
  have P1: "first_id P ?K1 = Some n" if "first_id P ?K = None"
    using first_id_new [of ?K A "(t, e) # B" ?K1 n P "[]"] ab that by simp
  from loc1 T1 ord P1 show ?thesis by auto
qed

lemma insertAdjacentHTML_Inr:
  assumes "insertAdjacentHTML r pos h st = (Inr (), st')"
    and "instantiate (next_nid st) h = (new, m)"
  shows "st' = set_forest (ins_adjacent pos r new (forest st)) (st\<lparr>next_nid := m\<rparr>)"
proof (cases "locate r [] (forest st)")
  case None
  with assms show ?thesis by (simp add: insertAdjacentHTML_def)
next
  case (Some x)
  obtain nd anc where x: "x = (nd, anc)" by (cases x)
  show ?thesis
  proof (cases anc)
    case Nil
    with assms Some x show ?thesis by (simp add: insertAdjacentHTML_def)
  next
    case (Cons s anc')
    obtain tg i where s: "s = (tg, i)" by (cases s)
    with assms Some x Cons show ?thesis
      by (simp add: insertAdjacentHTML_def split: if_splits)
  qed
qed

lemma describeFallbackHTML_branch:
  assumes id: "is_ident cnvId" and loc: "locate d [] (forest st) = Some (dn, danc)"
    and c: "first_id (cnvId @ descContainer) (kids dn) = Some c"
    and call: "fst (describeFallbackHTML d cnvId st) = Inr (Some p)"
  shows "\<exists>t st1. first_id (cnvId @ fallbackTableId) (kids dn) = Some t \<and>
           insertAdjacentHTML t Beforebegin [p_element (cnvId @ fallbackDescId)] st = (Inr (), st1) \<and>
           describeFallbackHTML d cnvId st = (Inr (Some p), st1) \<and>
           fst (querySelector d (''#'' @ cnvId @ fallbackDescId) st1) = Inr (Some p)"
proof -
  let ?T = "cnvId @ fallbackTableId" and ?P = "cnvId @ fallbackDescId"
  note idents = suffix_ident [OF id]
  let ?tail = "bind (querySelector d (''#'' @ ?P))
     (\<lambda>found. if found \<noteq> None then querySelector d (''#'' @ ?P) else return None)"
  have unf: "describeFallbackHTML d cnvId st =
     seq (bind (non_null (first_id ?T (kids dn)))
            (\<lambda>t. insertAdjacentHTML t Beforebegin [p_element ?P])) ?tail st"
    by (simp add: describeFallbackHTML_def bind_qs [OF idents(1) loc] bind_qs [OF idents(3) loc]
        c seq_def bind_assoc)
  show ?thesis
  proof (cases "first_id ?T (kids dn)")
    case None
    with unf call show ?thesis
      by (simp add: seq_cases non_null_simps bind_throw)
  next
    case (Some t)
    obtain rs st1 where ins: "insertAdjacentHTML t Beforebegin [p_element ?P] st = (rs, st1)"
      by (cases "insertAdjacentHTML t Beforebegin [p_element ?P] st")
    show ?thesis
    proof (cases rs)
      case (Inl e)
      with unf call Some ins show ?thesis
        by (simp add: seq_cases non_null_simps bind_return)
    next
      case (Inr u)
      with ins have ins': "insertAdjacentHTML t Beforebegin [p_element ?P] st = (Inr (), st1)"
        by simp
      have "snd (?tail st1) = st1"
        by (auto simp: bind_def return_def querySelector_def split: sum.splits option.splits prod.splits)
      moreover from unf Some ins' have "describeFallbackHTML d cnvId st = ?tail st1"
        by (simp add: seq_cases non_null_simps bind_return)
      ultimately have res: "describeFallbackHTML d cnvId st = (Inr (Some p), st1)"
        "fst (?tail st1) = Inr (Some p)"
        using call by (metis prod.collapse, simp)
      from res(2) have "fst (querySelector d (''#'' @ ?P) st1) = Inr (Some p)"
        using querySelector_state [of d "''#'' @ ?P" st1]
        by (cases "querySelector d (''#'' @ ?P) st1")
           (auto simp: bind_def return_def split: sum.splits if_splits)
      with res(1) Some ins' show ?thesis by blast
    qed
  qed
qed


lemma forest_update:
  "forest (s\<lparr>descriptions := a\<rparr>) = forest s"
  "forest (s\<lparr>dummyDOM := b\<rparr>) = forest s"
  "forest (s\<lparr>next_nid := m\<rparr>) = forest s"
  by (simp_all add: forest_def)

lemma seq_return_unit: "seq m (return ()) = m"
  by (auto simp: seq_def bind_def return_def fun_eq_iff split: prod.splits sum.splits)

lemma set_forest_fields:
  "descriptions (set_forest F st) = descriptions st"
  "dummyDOM (set_forest F st) = dummyDOM st"
  "canvas_id (set_forest F st) = canvas_id st"
  by (cases F; simp add: set_forest_def)+

lemma describe_after_table:
  assumes wf: "wf_nodes st" and id: "is_ident (canvas_id st)"
    and dd: "dummyDOM st = Some r" and ds: "descriptions st = Some ds0"
    and nf: "fallback ds0 = None" and disp: "d \<noteq> LABEL"
    and q: "fst (querySelector r (''#'' @ canvas_id st @ descContainer) st) = Inr (Some c)"
    and np: "fst (querySelector r (''#'' @ canvas_id st @ fallbackDescId) st) = Inr None"
    and call: "fst (describe (JStr tx) d st) = Inr ()"
  shows "\<exists>p t. fst (querySelector r (''#'' @ canvas_id st @ fallbackTableId) st) = Inr (Some t) \<and>
           descriptions (run (describe (JStr tx) d) st) = Some (ds0\<lparr>fallback := Some p\<rparr>) \<and>
           fst (querySelector r (''#'' @ canvas_id st @ fallbackDescId)
                  (run (describe (JStr tx) d) st)) = Inr (Some p) \<and>
           fst (querySelector r (''#'' @ canvas_id st @ fallbackTableId)
                  (run (describe (JStr tx) d) st)) = Inr (Some t) \<and>
           precedes_under (run (describe (JStr tx) d) st) r p t"
proof -
  let ?cnv = "canvas_id st" and ?n = "next_nid st" and ?F = "forest st"
  let ?T = "?cnv @ fallbackTableId" and ?P = "?cnv @ fallbackDescId"
  note idents = suffix_ident [OF id]
  from q obtain dn danc where loc: "locate r [] ?F = Some (dn, danc)"
    using querySelector_located_fst by blast
  from q have c: "first_id (?cnv @ descContainer) (kids dn) = Some c"
    by (simp add: querySelector_id [OF idents(1) loc])
  from np have npK: "first_id ?P (kids dn) = None"
    by (simp add: querySelector_id [OF idents(2) loc])
  from call obtain u where u: "descriptionText tx = Inr u"
    by (cases "descriptionText tx") (simp_all add: describe_def bind_lift_Inl)
  have ens: "ensure_dummyDOM st = (Inr (), st)"
    by (simp add: ensure_dummyDOM_def dd)
  have e1: "seq ensure_dummyDOM k st = k st" for k :: "unit action"
    by (simp add: seq_def bind_def ens)
  have e2: "seq (\<lambda>st. (Inr (), if descriptions st = None
                              then st\<lparr>descriptions := Some empty_descriptions\<rparr> else st)) k st
              = k st" for k :: "unit action"
    by (simp add: seq_def bind_def ds)
  have unf: "describe (JStr tx) d st = describe_fallback ?cnv u st"
    by (simp add: describe_def u bind_lift_Inr e1 e2 disp seq_return_unit)
  obtain res st1 where helper: "describeFallbackHTML r ?cnv st = (res, st1)"
    by (cases "describeFallbackHTML r ?cnv st")
  let ?rest = "\<lambda>n. seq (modify_descriptions (\<lambda>d. d\<lparr>fallback := Some n\<rparr>))
                    (seq (set_dummyDOM r) (set_innerHTML n [Raw u]))"
  have unf2: "describe_fallback ?cnv u st =
      (case res of Inl e \<Rightarrow> (Inl e, st1)
       | Inr None \<Rightarrow> (Inl TypeError, st1)
       | Inr (Some n) \<Rightarrow> ?rest n st1)"
  proof -
    have g1: "bind get_descriptions f st = f ds0 st" for f :: "descriptions \<Rightarrow> unit action"
      by (simp add: bind_def get_descriptions_def ds non_null_simps return_def)
    have g2: "bind get_dummyDOM f st = f r st" for f :: "nat \<Rightarrow> unit action"
      by (simp add: bind_def get_dummyDOM_def dd non_null_simps return_def)
    have g3: "bind (describeFallbackHTML r ?cnv) f st =
                (case res of Inl e \<Rightarrow> (Inl e, st1) | Inr x \<Rightarrow> f x st1)"
      for f :: "nat option \<Rightarrow> unit action"
      by (simp add: bind_def helper split: sum.splits)
    show ?thesis
      by (simp add: describe_fallback_def g1 nf g2 g3 non_null_simps bind_return bind_throw
          split: sum.splits option.splits)
  qed
  from call unf unf2 obtain p where res: "res = Inr (Some p)"
    by (cases res) (auto split: option.splits)
  with helper have hp: "fst (describeFallbackHTML r ?cnv st) = Inr (Some p)" by simp
  from describeFallbackHTML_branch [OF id loc c hp] helper res obtain t where
    t: "first_id ?T (kids dn) = Some t" and
    ins: "insertAdjacentHTML t Beforebegin [p_element ?P] st = (Inr (), st1)" and
    pq: "fst (querySelector r (''#'' @ ?P) st1) = Inr (Some p)"
    by auto
  let ?new = "[Elem ?n ''p'' [(''id'', ?P)] []]"
  let ?F1 = "ins_adjacent Beforebegin t ?new ?F"
  have st1: "st1 = set_forest ?F1 (st\<lparr>next_nid := Suc ?n\<rparr>)"
    by (rule insertAdjacentHTML_Inr [OF ins instantiate_p_element])
  have F1: "forest st1 = ?F1"
    unfolding st1 by (rule forest_set_forest) (simp add: ins_adjacent_nonempty forest_nonempty)
  have f1: "descriptions st1 = Some ds0" "dummyDOM st1 = Some r" "next_nid st1 = Suc ?n"
    unfolding st1 by (simp_all add: set_forest_fields next_nid_set_forest ds dd)
  from wf have dF: "distinct (nids ?F)" by (simp add: wf_nodes_iff)
  note fresh = fresh_not_in [OF wf]
  have ne: "?T \<noteq> ?P" by (simp add: fallbackTableId_def fallbackDescId_def)
  from before_insert_order [OF dF loc t ne _ fresh, of ?new] npK obtain dn1 where
    loc1: "locate r [] ?F1 = Some (dn1, danc)" and P1: "first_id ?P (kids dn1) = Some ?n"
    by auto
  from pq loc1 have "first_id ?P (kids dn1) = Some p"
    by (simp add: querySelector_id [OF idents(2)] F1)
  with P1 have p: "p = ?n" by simp
  from loc t have tF: "t \<in> set (nids ?F)"
    using locate_nids first_id_in by blast
  from locate_inserted [OF tF fresh, of "[]" Beforebegin "''p''" "[(''id'', ?P)]"] obtain anc' where
    locp: "locate ?n [] ?F1 = Some (Elem ?n ''p'' [(''id'', ?P)] [], anc')" by blast
  let ?new2 = "[Elem ?n ''p'' [(''id'', ?P)] [Markup u]]"
  let ?F2 = "ins_adjacent Beforebegin t ?new2 ?F"
  have up: "upd_kids ?n (\<lambda>_. [Markup u]) ?F1 = ?F2"
    by (rule upd_kids_inserted [OF fresh])
  let ?st2 = "set_forest ?F2 (st1\<lparr>descriptions := Some (ds0\<lparr>fallback := Some ?n\<rparr>),
                                     dummyDOM := Some r, next_nid := Suc ?n\<rparr>)"
  have rest: "?rest ?n st1 = (Inr (), ?st2)"
    by (simp add: seq_cases modify_descriptions_def f1 set_dummyDOM_def set_innerHTML_def
        forest_update F1 locp up)
  from unf unf2 res p rest have run: "run (describe (JStr tx) d) st = ?st2"
    by (simp add: run_def)
  have F2: "forest ?st2 = ?F2"
    by (rule forest_set_forest) (simp add: ins_adjacent_nonempty forest_nonempty)
  from before_insert_order [OF dF loc t ne _ fresh, of ?new2] npK obtain dn2 where
    loc2: "locate r [] ?F2 = Some (dn2, danc)" and T2: "first_id ?T (kids dn2) = Some t" and
    P2: "first_id ?P (kids dn2) = Some ?n" and
    ord: "\<And>p. first_id ?P (kids dn2) = Some p \<Longrightarrow> before_in (nids (kids dn2)) p t"
    by auto
  from loc2 F2 have loc2': "locate r [] (forest ?st2) = Some (dn2, danc)" by simp
  have "fst (querySelector r (''#'' @ ?T) st) = Inr (Some t)"
    by (simp add: querySelector_id [OF idents(3) loc] t)
  moreover have "descriptions ?st2 = Some (ds0\<lparr>fallback := Some ?n\<rparr>)"
    by (simp add: set_forest_fields)
  moreover have "fst (querySelector r (''#'' @ ?P) ?st2) = Inr (Some ?n)"
    by (simp add: querySelector_id [OF idents(2) loc2'] P2)
  moreover have "fst (querySelector r (''#'' @ ?T) ?st2) = Inr (Some t)"
    by (simp add: querySelector_id [OF idents(3) loc2'] T2)
  moreover have "precedes_under ?st2 r ?n t"
    by (simp add: precedes_under_def kids_of_located [OF loc2'] ord [OF P2])
  ultimately show ?thesis
    unfolding run by blast
qed

text \<open>
  The placement of the second node in any document. Whichever of the description
  paragraph and the element table of a region is created second, the scaffold places it
  so that the paragraph precedes the table among the descendants of the root. For the
  fallback region and for the label region, on a state with sound node identities and
  a canvas id that is an identifier: when the container exists and
  \<open>_describeFallbackHTML\<close> (\<open>_describeLabelHTML\<close> with the table present) returns a
  paragraph, the table found before the call is still the table and the returned
  paragraph precedes it; when the container exists without a table and
  \<open>_descElementFallbackHTML\<close> (\<open>_descElementLabelHTML\<close>) returns, the paragraph
  found before the call is still the paragraph, a table exists and the paragraph
  precedes it. A call of \<open>describe\<close> without \<open>LABEL\<close> that returns, made when the
  fallback container and table exist and no paragraph does, creates the paragraph,
  caches it and leaves it before the table.
\<close>

lemma scaffold_order:
  assumes "wf_nodes st" and "is_ident cnvId"
  shows
    "(fst (querySelector d (''#'' @ cnvId @ descContainer) st) = Inr (Some c1) \<and>
      fst (describeFallbackHTML d cnvId st) = Inr (Some p1) \<longrightarrow>
        (\<exists>t. fst (querySelector d (''#'' @ cnvId @ fallbackTableId) st) = Inr (Some t) \<and>
             fst (querySelector d (''#'' @ cnvId @ fallbackTableId)
                    (run (describeFallbackHTML d cnvId) st)) = Inr (Some t) \<and>
             precedes_under (run (describeFallbackHTML d cnvId) st) d p1 t)) \<and>
     (fst (querySelector d (''#'' @ cnvId @ descContainer) st) = Inr (Some c2) \<and>
      fst (querySelector d (''#'' @ cnvId @ fallbackTableId) st) = Inr None \<and>
      fst (descElementFallbackHTML d cnvId name st) = Inr r2 \<longrightarrow>
        (\<exists>p t. fst (querySelector d (''#'' @ cnvId @ fallbackDescId) st) = Inr (Some p) \<and>
             fst (querySelector d (''#'' @ cnvId @ fallbackDescId)
                    (run (descElementFallbackHTML d cnvId name) st)) = Inr (Some p) \<and>
             fst (querySelector d (''#'' @ cnvId @ fallbackTableId)
                    (run (descElementFallbackHTML d cnvId name) st)) = Inr (Some t) \<and>
             precedes_under (run (descElementFallbackHTML d cnvId name) st) d p t)) \<and>
     (fst (querySelector d (''#'' @ cnvId @ labelContainer) st) = Inr (Some c3) \<and>
      fst (querySelector d (''#'' @ cnvId @ labelTableId) st) = Inr (Some t3) \<and>
      fst (describeLabelHTML d cnvId st) = Inr (Some p3) \<longrightarrow>
        fst (querySelector d (''#'' @ cnvId @ labelTableId)
               (run (describeLabelHTML d cnvId) st)) = Inr (Some t3) \<and>
        precedes_under (run (describeLabelHTML d cnvId) st) d p3 t3) \<and>
     (fst (querySelector d (''#'' @ cnvId @ labelContainer) st) = Inr (Some c4) \<and>
      fst (querySelector d (''#'' @ cnvId @ labelTableId) st) = Inr None \<and>
      fst (descElementLabelHTML d cnvId name st) = Inr r4 \<longrightarrow>
        (\<exists>p t. fst (querySelector d (''#'' @ cnvId @ labelDescId) st) = Inr (Some p) \<and>
             fst (querySelector d (''#'' @ cnvId @ labelDescId)
                    (run (descElementLabelHTML d cnvId name) st)) = Inr (Some p) \<and>
             fst (querySelector d (''#'' @ cnvId @ labelTableId)
                    (run (descElementLabelHTML d cnvId name) st)) = Inr (Some t) \<and>
             precedes_under (run (descElementLabelHTML d cnvId name) st) d p t)) \<and>
     (cnvId = canvas_id st \<and> dummyDOM st = Some d \<and> descriptions st = Some ds0 \<and>
      fallback ds0 = None \<and> disp \<noteq> LABEL \<and>
      fst (querySelector d (''#'' @ cnvId @ descContainer) st) = Inr (Some c5) \<and>
      fst (querySelector d (''#'' @ cnvId @ fallbackDescId) st) = Inr None \<and>
      fst (describe (JStr tx) disp st) = Inr () \<longrightarrow>
        (\<exists>p t. fst (querySelector d (''#'' @ cnvId @ fallbackTableId) st) = Inr (Some t) \<and>
             descriptions (run (describe (JStr tx) disp) st) = Some (ds0\<lparr>fallback := Some p\<rparr>) \<and>
             fst (querySelector d (''#'' @ cnvId @ fallbackDescId)
                    (run (describe (JStr tx) disp) st)) = Inr (Some p) \<and>
             fst (querySelector d (''#'' @ cnvId @ fallbackTableId)
                    (run (describe (JStr tx) disp) st)) = Inr (Some t) \<and>
             precedes_under (run (describe (JStr tx) disp) st) d p t))"
proof (intro conjI impI)
  assume "fst (querySelector d (''#'' @ cnvId @ descContainer) st) = Inr (Some c1) \<and>
      fst (describeFallbackHTML d cnvId st) = Inr (Some p1)"
  then show "\<exists>t. fst (querySelector d (''#'' @ cnvId @ fallbackTableId) st) = Inr (Some t) \<and>
             fst (querySelector d (''#'' @ cnvId @ fallbackTableId)
                    (run (describeFallbackHTML d cnvId) st)) = Inr (Some t) \<and>
             precedes_under (run (describeFallbackHTML d cnvId) st) d p1 t"
    using fallback_paragraph_first [OF assms] by blast
next
  assume "fst (querySelector d (''#'' @ cnvId @ descContainer) st) = Inr (Some c2) \<and>
      fst (querySelector d (''#'' @ cnvId @ fallbackTableId) st) = Inr None \<and>
      fst (descElementFallbackHTML d cnvId name st) = Inr r2"
  then show "\<exists>p t. fst (querySelector d (''#'' @ cnvId @ fallbackDescId) st) = Inr (Some p) \<and>
             fst (querySelector d (''#'' @ cnvId @ fallbackDescId)
                    (run (descElementFallbackHTML d cnvId name) st)) = Inr (Some p) \<and>
             fst (querySelector d (''#'' @ cnvId @ fallbackTableId)
                    (run (descElementFallbackHTML d cnvId name) st)) = Inr (Some t) \<and>
             precedes_under (run (descElementFallbackHTML d cnvId name) st) d p t"
    using fallback_table_second [OF assms] by blast
next
  assume h: "fst (querySelector d (''#'' @ cnvId @ labelContainer) st) = Inr (Some c3) \<and>
      fst (querySelector d (''#'' @ cnvId @ labelTableId) st) = Inr (Some t3) \<and>
      fst (describeLabelHTML d cnvId st) = Inr (Some p3)"
  from h label_paragraph_first [OF assms, of d c3 t3 p3]
  show "fst (querySelector d (''#'' @ cnvId @ labelTableId)
               (run (describeLabelHTML d cnvId) st)) = Inr (Some t3)"
    by blast
  from h label_paragraph_first [OF assms, of d c3 t3 p3]
  show "precedes_under (run (describeLabelHTML d cnvId) st) d p3 t3"
    by blast
next
  assume "fst (querySelector d (''#'' @ cnvId @ labelContainer) st) = Inr (Some c4) \<and>
      fst (querySelector d (''#'' @ cnvId @ labelTableId) st) = Inr None \<and>
      fst (descElementLabelHTML d cnvId name st) = Inr r4"
  then show "\<exists>p t. fst (querySelector d (''#'' @ cnvId @ labelDescId) st) = Inr (Some p) \<and>
             fst (querySelector d (''#'' @ cnvId @ labelDescId)
                    (run (descElementLabelHTML d cnvId name) st)) = Inr (Some p) \<and>
             fst (querySelector d (''#'' @ cnvId @ labelTableId)
                    (run (descElementLabelHTML d cnvId name) st)) = Inr (Some t) \<and>
             precedes_under (run (descElementLabelHTML d cnvId name) st) d p t"
    using label_table_second [OF assms] by blast
next
  assume h: "cnvId = canvas_id st \<and> dummyDOM st = Some d \<and> descriptions st = Some ds0 \<and>
      fallback ds0 = None \<and> disp \<noteq> LABEL \<and>
      fst (querySelector d (''#'' @ cnvId @ descContainer) st) = Inr (Some c5) \<and>
      fst (querySelector d (''#'' @ cnvId @ fallbackDescId) st) = Inr None \<and>
      fst (describe (JStr tx) disp st) = Inr ()"
  then have eq: "cnvId = canvas_id st" by simp
  from assms(2) have id: "is_ident (canvas_id st)" unfolding eq .
  from h have "dummyDOM st = Some d" "descriptions st = Some ds0" "fallback ds0 = None"
    "disp \<noteq> LABEL"
    "fst (querySelector d (''#'' @ canvas_id st @ descContainer) st) = Inr (Some c5)"
    "fst (querySelector d (''#'' @ canvas_id st @ fallbackDescId) st) = Inr None"
    "fst (describe (JStr tx) disp st) = Inr ()"
    unfolding eq by simp_all
  from describe_after_table [OF assms(1) id this]
  show "\<exists>p t. fst (querySelector d (''#'' @ cnvId @ fallbackTableId) st) = Inr (Some t) \<and>
             descriptions (run (describe (JStr tx) disp) st) = Some (ds0\<lparr>fallback := Some p\<rparr>) \<and>
             fst (querySelector d (''#'' @ cnvId @ fallbackDescId)
                    (run (describe (JStr tx) disp) st)) = Inr (Some p) \<and>
             fst (querySelector d (''#'' @ cnvId @ fallbackTableId)
                    (run (describe (JStr tx) disp) st)) = Inr (Some t) \<and>
             precedes_under (run (describe (JStr tx) disp) st) d p t"
    unfolding eq .
qed

section \<open>The order after any sequence of calls\<close>

subsection \<open>Node identities under the DOM calls\<close>






lemma wf_createElement:
  "wf_nodes st \<Longrightarrow> createElement t st = (Inr row, st') \<Longrightarrow>
   wf_nodes st' \<and> row = Elem (next_nid st) t [] [] \<and> next_nid st \<notin> set (nids (forest st')) \<and>
   next_nid st < next_nid st' \<and> forest st' = forest st"
  by (auto simp: createElement_def wf_nodes_iff forest_def less_Suc_eq)

subsection \<open>The DOM calls on the page of the module\<close>

text \<open>
  Each DOM call the scaffold makes, on a page of the shape \<open>shaped\<close>: what it returns
  and the shape it leaves. First the fallback region, then the label region, then a write
  into a node that the shape does not name, and the lookups by selector.
\<close>

lemma inert_simps:
  "inert cnv []"
  "inert cnv (Markup s # ns) = inert cnv ns"
  "inert cnv (Elem i t a ks # ns) =
     ((case map_of a ''id'' of None \<Rightarrow> True | Some x \<Rightarrow> x \<notin> set (module_ids cnv)) \<and>
      inert cnv ks \<and> inert cnv ns)"
  by (simp_all add: inert_def)




lemmas id_defs = descContainer_def fallbackDescId_def fallbackTableId_def labelContainer_def
  labelDescId_def labelTableId_def fallbackTableElId_def labelTableElId_def
















lemma bind_eval: "m st = (Inr x, st') \<Longrightarrow> bind m f st = f x st'"
  by (simp add: bind_def)





























lemma inert_raw: "inert cnv (fst (instantiate k [Raw u]))"
  by (simp add: inert_simps)

lemma module_ids_distinct:
  "cnv @ descContainer \<noteq> cnv @ fallbackDescId" "cnv @ descContainer \<noteq> cnv @ fallbackTableId"
  "cnv @ fallbackDescId \<noteq> cnv @ fallbackTableId"
  "cnv @ labelContainer \<noteq> cnv @ labelDescId" "cnv @ labelContainer \<noteq> cnv @ labelTableId"
  "cnv @ labelDescId \<noteq> cnv @ labelTableId"
  by (simp_all add: id_defs)

























subsection \<open>The scaffold on the page of the module\<close>
















subsection \<open>The cached references\<close>








lemma rows_ok_Nil: "rows_ok fb lb st []"
  by (simp add: rows_ok_def)


lemma update_nonempty: "AList.update k v m \<noteq> []"
  by (cases m) auto
















subsection \<open>Every call keeps the invariant\<close>



















end
